theory Spec2Isabelle
  imports Main "HOL-Library.Word" "HOL-Library.Sublist"
begin

section \<open>The brainfuck interpreter of \<^verbatim>\<open>bf.c\<close> and its two older copies\<close>

text \<open>
  The repository holds three copies of one interpreter: \<^verbatim>\<open>src/bf.c\<close> (the newest),
  \<^verbatim>\<open>src/brainfuck.c\<close> and \<^verbatim>\<open>src/brainfuck/brainfuck.c\<close> (the oldest). Their
  function \<^verbatim>\<open>interpret\<close> differs in three places only, so one model with a parameter
  for the copy covers all of them:
  \<^item> \<^verbatim>\<open>bf.c\<close> returns \<^verbatim>\<open>INT_IOERR\<close> when \<^verbatim>\<open>putchar\<close> returns \<^verbatim>\<open>EOF\<close>; the two older
    copies ignore the result of \<^verbatim>\<open>putchar\<close>;
  \<^item> the forward scan runs \<^verbatim>\<open>while (bal && i < fsize - 1)\<close> in \<^verbatim>\<open>bf.c\<close> and
    \<^verbatim>\<open>brainfuck.c\<close>, and \<^verbatim>\<open>while (bal && i < fsize)\<close> in \<^verbatim>\<open>brainfuck/brainfuck.c\<close>;
  \<^item> the backward scan tests \<^verbatim>\<open>i >= fsize\<close> in \<^verbatim>\<open>bf.c\<close> and \<^verbatim>\<open>brainfuck.c\<close>, and
    \<^verbatim>\<open>i > fsize\<close> in \<^verbatim>\<open>brainfuck/brainfuck.c\<close>.

  The oldest copy also declares \<^verbatim>\<open>bal\<close> as a \<^verbatim>\<open>size_t\<close> where the other two have a
  \<^verbatim>\<open>long\<close>. Either scan starts it at 1 and stops when it reaches 0, so it is never
  negative, and one integer models both.
\<close>

subsection \<open>Data\<close>

type_synonym byte = "8 word"
type_synonym addr = nat

text \<open>\<^verbatim>\<open>struct node\<close>: an \<^verbatim>\<open>unsigned char\<close> and two pointers; \<open>None\<close> is \<^verbatim>\<open>NULL\<close>.\<close>

record node =
  c :: byte
  prev :: "addr option"
  "next" :: "addr option"

datatype INT_STAT = INT_SUCC | INT_INVL | INT_MEMERR | INT_IOERR

text \<open>
  The expression \<^verbatim>\<open>str[k]\<close> with \<open>k\<close> at or past \<^verbatim>\<open>fsize\<close> reads outside the buffer
  that \<^verbatim>\<open>main\<close> allocated with \<^verbatim>\<open>malloc(fsize)\<close>. C leaves the behaviour undefined; the model
  stops there and reports the index.
\<close>

datatype fault = ReadPastEnd nat

datatype result = Status INT_STAT | Undefined fault

datatype copy = Bf | Brainfuck | Brainfuck_dir

text \<open>
  The state that \<^verbatim>\<open>interpret\<close> works on: the nodes (a store from addresses to nodes, of
  which the addresses below \<open>brk\<close> have been allocated), the locals \<^verbatim>\<open>ptr\<close>, \<^verbatim>\<open>i\<close> and
  \<^verbatim>\<open>bal\<close>, the bytes still to be read from standard input and the bytes written to
  standard output so far.
\<close>

record machine =
  heap :: "addr \<Rightarrow> node"
  brk :: nat
  ptr :: addr
  i :: nat
  bal :: int
  stdin :: "byte list"
  stdout :: "byte list"

text \<open>
  What the environment decides: whether the write that follows \<open>n\<close> written bytes is
  accepted, and whether the \<^verbatim>\<open>malloc\<close> that follows \<open>n\<close> allocated nodes succeeds.
\<close>

record env =
  wr_ok :: "nat \<Rightarrow> bool"
  alloc_ok :: "nat \<Rightarrow> bool"

datatype flow = Continue machine | Return result machine

text \<open>\<^verbatim>\<open>EOF\<close> of \<^verbatim>\<open>stdio.h\<close>, and \<^verbatim>\<open>SIZE_MAX\<close>, \<^verbatim>\<open>(size_t) -1\<close> with a 64-bit \<^verbatim>\<open>size_t\<close>.\<close>

definition EOF :: int where
  "EOF = - 1"

definition SIZE_MAX :: nat where
  "SIZE_MAX = 2 ^ 64 - 1"

subsection \<open>The library calls\<close>

definition getchar :: "machine \<Rightarrow> int \<times> machine" where
  "getchar s = (case stdin s of [] \<Rightarrow> (EOF, s) | b # bs \<Rightarrow> (uint b, s\<lparr>stdin := bs\<rparr>))"

definition putchar :: "env \<Rightarrow> byte \<Rightarrow> machine \<Rightarrow> int \<times> machine" where
  "putchar e b s =
     (if wr_ok e (length (stdout s)) then (uint b, s\<lparr>stdout := stdout s @ [b]\<rparr>)
      else (EOF, s))"

definition malloc :: "env \<Rightarrow> machine \<Rightarrow> addr option \<times> machine" where
  "malloc e s =
     (if alloc_ok e (brk s) then (Some (brk s), s\<lparr>brk := brk s + 1\<rparr>) else (None, s))"

subsection \<open>The two scans\<close>

text \<open>
  The \<^verbatim>\<open>do ... while\<close> of case \<^verbatim>\<open>'['\<close>, entered with \<^verbatim>\<open>bal = 1\<close>. The bound \<open>lim\<close> is
  \<^verbatim>\<open>fsize - 1\<close> or \<^verbatim>\<open>fsize\<close>, see \<open>fwd_lim\<close>. The body increments \<^verbatim>\<open>i\<close> and reads
  \<^verbatim>\<open>str[i]\<close> before any bound is tested. The increment cannot wrap around: the scan
  starts below \<^verbatim>\<open>fsize\<close> and goes on only below \<open>lim\<close>, and \<^verbatim>\<open>fsize\<close> is a
  \<^verbatim>\<open>size_t\<close>. Nor can \<^verbatim>\<open>bal\<close> overflow: it is at most one more than the number of bytes
  scanned.
\<close>

function scan_fwd :: "nat \<Rightarrow> string \<Rightarrow> nat \<Rightarrow> int \<Rightarrow> fault + nat \<times> int" where
  "scan_fwd lim str k b =
     (let k1 = k + 1 in
      if length str \<le> k1 then Inl (ReadPastEnd k1)
      else
        let b1 = (if str ! k1 = CHR ''['' then b + 1 else b);
            b2 = (if str ! k1 = CHR '']'' then b1 - 1 else b1)
        in if b2 \<noteq> 0 \<and> k1 < lim then scan_fwd lim str k1 b2 else Inr (k1, b2))"
  by pat_completeness auto
termination
  by (relation "measure (\<lambda>(lim, str, k, b). length str - k)") auto

definition fwd_lim :: "copy \<Rightarrow> string \<Rightarrow> nat" where
  "fwd_lim v str = (if v = Brainfuck_dir then length str else length str - 1)"

text \<open>
  The \<^verbatim>\<open>do ... while\<close> of case \<^verbatim>\<open>']'\<close>, entered with \<^verbatim>\<open>bal = 1\<close>. At \<^verbatim>\<open>i = 0\<close> the
  decrement wraps around to \<^verbatim>\<open>SIZE_MAX\<close>. The test \<^verbatim>\<open>i >= fsize\<close> then holds, since
  \<^verbatim>\<open>fsize\<close> is a \<^verbatim>\<open>size_t\<close>; the test \<^verbatim>\<open>i > fsize\<close> of the oldest copy holds unless
  \<^verbatim>\<open>fsize\<close> is \<^verbatim>\<open>SIZE_MAX\<close> itself, where \<^verbatim>\<open>str[SIZE_MAX]\<close> is read.
\<close>

function scan_bwd :: "copy \<Rightarrow> string \<Rightarrow> nat \<Rightarrow> int \<Rightarrow> result + nat \<times> int" where
  "scan_bwd v str k b =
     (if k = 0 then
        (if v = Brainfuck_dir \<and> length str = SIZE_MAX then Inl (Undefined (ReadPastEnd SIZE_MAX))
         else Inl (Status INT_INVL))
      else
        let k1 = k - 1 in
        if (if v = Brainfuck_dir then length str < k1 else length str \<le> k1)
        then Inl (Status INT_INVL)
        else if length str \<le> k1 then Inl (Undefined (ReadPastEnd k1))
        else
          let b1 = (if str ! k1 = CHR '']'' then b + 1 else b);
              b2 = (if str ! k1 = CHR ''['' then b1 - 1 else b1)
          in if b2 \<noteq> 0 then scan_bwd v str k1 b2 else Inr (k1, b2))"
  by pat_completeness auto
termination
  by (relation "measure (\<lambda>(v, str, k, b). k)") auto

subsection \<open>The cases of the switch\<close>

definition ptr_c :: "machine \<Rightarrow> byte" where
  "ptr_c s = c (heap s (ptr s))"

definition set_ptr_c :: "byte \<Rightarrow> machine \<Rightarrow> machine" where
  "set_ptr_c b s = s\<lparr>heap := (heap s)(ptr s := (heap s (ptr s))\<lparr>c := b\<rparr>)\<rparr>"

definition case_plus :: "machine \<Rightarrow> flow" where
  "case_plus s = Continue (set_ptr_c (ptr_c s + 1) s)"

definition case_minus :: "machine \<Rightarrow> flow" where
  "case_minus s = Continue (set_ptr_c (ptr_c s - 1) s)"

definition case_lt :: "env \<Rightarrow> machine \<Rightarrow> flow" where
  "case_lt e s =
     (case prev (heap s (ptr s)) of
        Some q \<Rightarrow> Continue (s\<lparr>ptr := q\<rparr>)
      | None \<Rightarrow>
          (case malloc e s of
             (None, s1) \<Rightarrow> Return (Status INT_MEMERR) s1
           | (Some n, s1) \<Rightarrow>
               let p = ptr s1;
                   h1 = (heap s1)(p := (heap s1 p)\<lparr>prev := Some n\<rparr>);
                   h2 = h1(n := \<lparr>c = 0, prev = None, next = Some p\<rparr>)
               in Continue (s1\<lparr>heap := h2, ptr := n\<rparr>)))"

definition case_gt :: "env \<Rightarrow> machine \<Rightarrow> flow" where
  "case_gt e s =
     (case next (heap s (ptr s)) of
        Some q \<Rightarrow> Continue (s\<lparr>ptr := q\<rparr>)
      | None \<Rightarrow>
          (case malloc e s of
             (None, s1) \<Rightarrow> Return (Status INT_MEMERR) s1
           | (Some n, s1) \<Rightarrow>
               let p = ptr s1;
                   h1 = (heap s1)(p := (heap s1 p)\<lparr>next := Some n\<rparr>);
                   h2 = h1(n := \<lparr>c = 0, prev = Some p, next = None\<rparr>)
               in Continue (s1\<lparr>heap := h2, ptr := n\<rparr>)))"

definition case_dot :: "copy \<Rightarrow> env \<Rightarrow> machine \<Rightarrow> flow" where
  "case_dot v e s =
     (case putchar e (ptr_c s) s of
        (r, s1) \<Rightarrow> if v = Bf \<and> r = EOF then Return (Status INT_IOERR) s1 else Continue s1)"

definition case_comma :: "machine \<Rightarrow> flow" where
  "case_comma s = (case getchar s of (r, s1) \<Rightarrow> Continue (set_ptr_c (word_of_int r) s1))"

definition case_open :: "copy \<Rightarrow> string \<Rightarrow> machine \<Rightarrow> flow" where
  "case_open v str s =
     (if ptr_c s = 0 then
        (case scan_fwd (fwd_lim v str) str (i s) 1 of
           Inl f \<Rightarrow> Return (Undefined f) s
         | Inr (k, b) \<Rightarrow> Continue (s\<lparr>i := k, bal := b\<rparr>))
      else Continue s)"

definition case_close :: "copy \<Rightarrow> string \<Rightarrow> machine \<Rightarrow> flow" where
  "case_close v str s =
     (if ptr_c s \<noteq> 0 then
        (case scan_bwd v str (i s) 1 of
           Inl r \<Rightarrow> Return r s
         | Inr (k, b) \<Rightarrow> Continue (s\<lparr>i := k, bal := b\<rparr>))
      else Continue s)"

subsection \<open>The loop\<close>

text \<open>The \<^verbatim>\<open>switch (str[i])\<close>, for \<^verbatim>\<open>i < fsize\<close>.\<close>

definition body :: "copy \<Rightarrow> env \<Rightarrow> string \<Rightarrow> machine \<Rightarrow> flow" where
  "body v e str s =
     (let ch = str ! i s in
      if ch = CHR ''+'' then case_plus s
      else if ch = CHR ''-'' then case_minus s
      else if ch = CHR ''<'' then case_lt e s
      else if ch = CHR ''>'' then case_gt e s
      else if ch = CHR ''.'' then case_dot v e s
      else if ch = CHR '','' then case_comma s
      else if ch = CHR ''['' then case_open v str s
      else if ch = CHR '']'' then case_close v str s
      else Continue s)"

text \<open>
  One round of the \<^verbatim>\<open>for\<close> loop: the test \<^verbatim>\<open>i < fsize\<close>, the \<^verbatim>\<open>switch\<close> and the
  \<^verbatim>\<open>++i\<close>; when the test fails, the final \<^verbatim>\<open>return\<close>. After a \<^verbatim>\<open>switch\<close> that
  read nothing past the program \<^verbatim>\<open>i\<close> is below \<^verbatim>\<open>fsize\<close>, so the \<^verbatim>\<open>++i\<close> does not
  wrap around.
\<close>

definition iteration :: "copy \<Rightarrow> env \<Rightarrow> string \<Rightarrow> machine \<Rightarrow> flow" where
  "iteration v e str s =
     (if i s < length str then
        (case body v e str s of
           Return r s1 \<Rightarrow> Return r s1
         | Continue s1 \<Rightarrow> Continue (s1\<lparr>i := i s1 + 1\<rparr>))
      else Return (Status (if bal s \<noteq> 0 then INT_INVL else INT_SUCC)) s)"

text \<open>
  The loop. A program may loop for ever, so the loop takes the number of rounds it may
  run: \<open>None\<close> says that they did not suffice.
\<close>

fun loop :: "copy \<Rightarrow> env \<Rightarrow> string \<Rightarrow> nat \<Rightarrow> machine \<Rightarrow> (result \<times> machine) option" where
  "loop v e str 0 s = None"
| "loop v e str (Suc n) s =
     (case iteration v e str s of
        Return r s1 \<Rightarrow> Some (r, s1)
      | Continue s1 \<Rightarrow> loop v e str n s1)"

text \<open>The state after \<open>n\<close> rounds, if none of them returned.\<close>

fun after :: "copy \<Rightarrow> env \<Rightarrow> string \<Rightarrow> nat \<Rightarrow> machine \<Rightarrow> machine option" where
  "after v e str 0 s = Some s"
| "after v e str (Suc n) s =
     (case iteration v e str s of
        Return r s1 \<Rightarrow> None
      | Continue s1 \<Rightarrow> after v e str n s1)"

text \<open>
  \<^verbatim>\<open>interpret\<close> itself (the name is a keyword of Isabelle, hence the suffix): the locals
  \<^verbatim>\<open>i\<close> and \<^verbatim>\<open>bal\<close> start at 0.
\<close>

definition interpret_fn :: "copy \<Rightarrow> env \<Rightarrow> string \<Rightarrow> nat \<Rightarrow> machine \<Rightarrow> (result \<times> machine) option" where
  "interpret_fn v e str n s = loop v e str n (s\<lparr>i := 0, bal := 0\<rparr>)"

text \<open>
  What \<^verbatim>\<open>main\<close> hands to \<^verbatim>\<open>interpret\<close>: one node with value 0 and both pointers
  \<^verbatim>\<open>NULL\<close>, at address 0.
\<close>

definition fresh :: "byte list \<Rightarrow> machine" where
  "fresh inp =
     \<lparr>heap = (\<lambda>a. \<lparr>c = 0, prev = None, next = None\<rparr>), brk = 1, ptr = 0, i = 0, bal = 0,
      stdin = inp, stdout = []\<rparr>"

definition always :: env where
  "always = \<lparr>wr_ok = (\<lambda>n. True), alloc_ok = (\<lambda>n. True)\<rparr>"

definition rejecting :: env where
  "rejecting = \<lparr>wr_ok = (\<lambda>n. False), alloc_ok = (\<lambda>n. True)\<rparr>"

subsection \<open>What a run leaves behind\<close>

definition status_of :: "(result \<times> machine) option \<Rightarrow> result option" where
  "status_of r = map_option fst r"

definition output_of :: "(result \<times> machine) option \<Rightarrow> byte list option" where
  "output_of r = map_option (\<lambda>x. stdout (snd x)) r"

definition cell_of :: "(result \<times> machine) option \<Rightarrow> byte option" where
  "cell_of r = map_option (\<lambda>x. ptr_c (snd x)) r"

text \<open>The net count of a program of \<^verbatim>\<open>+\<close> and \<^verbatim>\<open>-\<close>: increments minus decrements.\<close>

definition net :: "string \<Rightarrow> int" where
  "net str = int (count_list str CHR ''+'') - int (count_list str CHR ''-'')"

subsection \<open>Matching brackets, as the spec words them\<close>

text \<open>
  The balance of a stretch of program text: \<^verbatim>\<open>[\<close> counts 1, \<^verbatim>\<open>]\<close> counts -1, any
  other byte counts nothing. A stretch is balanced when its balance is 0 and no prefix
  of it has a negative balance: its brackets are properly nested and fully matched.
  The stretch \<open>seg str a b\<close> holds the bytes at the positions from \<open>a\<close> up to, and
  without, \<open>b\<close>.
\<close>

definition depth :: "string \<Rightarrow> int" where
  "depth xs = int (count_list xs CHR ''['') - int (count_list xs CHR '']'')"

definition balanced :: "string \<Rightarrow> bool" where
  "balanced xs = (depth xs = 0 \<and> (\<forall>ys \<in> set (prefixes xs). 0 \<le> depth ys))"

definition seg :: "string \<Rightarrow> nat \<Rightarrow> nat \<Rightarrow> string" where
  "seg str a b = take (b - a) (drop a str)"

text \<open>The \<^verbatim>\<open>[\<close> at \<open>p\<close> and the \<^verbatim>\<open>]\<close> at \<open>q\<close> match.\<close>

definition matching :: "string \<Rightarrow> nat \<Rightarrow> nat \<Rightarrow> bool" where
  "matching str p q =
     (p < q \<and> q < length str \<and> str ! p = CHR ''['' \<and> str ! q = CHR '']'' \<and>
      balanced (seg str (p + 1) q))"

subsection \<open>The shape of the tape\<close>

text \<open>
  The nodes form a doubly linked list around \<^verbatim>\<open>ptr\<close>: \<open>ls\<close> holds the addresses reached
  by following \<^verbatim>\<open>prev\<close> from \<^verbatim>\<open>ptr\<close>, nearest first, up to the node whose \<^verbatim>\<open>prev\<close> is
  \<^verbatim>\<open>NULL\<close>, and \<open>rs\<close> those reached by following \<^verbatim>\<open>next\<close>; each link has its inverse,
  no node occurs twice, and all nodes have been allocated.
\<close>

primrec chain_prev :: "(addr \<Rightarrow> node) \<Rightarrow> addr \<Rightarrow> addr list \<Rightarrow> bool" where
  "chain_prev h p [] = (prev (h p) = None)"
| "chain_prev h p (q # qs) = (prev (h p) = Some q \<and> next (h q) = Some p \<and> chain_prev h q qs)"

primrec chain_next :: "(addr \<Rightarrow> node) \<Rightarrow> addr \<Rightarrow> addr list \<Rightarrow> bool" where
  "chain_next h p [] = (next (h p) = None)"
| "chain_next h p (q # qs) = (next (h p) = Some q \<and> prev (h q) = Some p \<and> chain_next h q qs)"

definition tape_ok :: "machine \<Rightarrow> addr list \<Rightarrow> addr list \<Rightarrow> bool" where
  "tape_ok s ls rs =
     (chain_prev (heap s) (ptr s) ls \<and> chain_next (heap s) (ptr s) rs \<and>
      distinct (ls @ ptr s # rs) \<and> (\<forall>a \<in> set (ls @ ptr s # rs). a < brk s))"

text \<open>The cells of the tape from left to right, by address.\<close>

definition cells :: "machine \<Rightarrow> addr list \<Rightarrow> addr list \<Rightarrow> addr list" where
  "cells s ls rs = rev ls @ ptr s # rs"

text \<open>The instructions that write to the current cell.\<close>

definition writes :: "string \<Rightarrow> machine \<Rightarrow> bool" where
  "writes str s = (str ! i s = CHR ''+'' \<or> str ! i s = CHR ''-'' \<or> str ! i s = CHR '','')"

text \<open>
  How far the round that starts in \<open>s\<close> moves the pointer: 1 for \<^verbatim>\<open>>\<close>, -1 for
  \<^verbatim>\<open><\<close>; and how far \<open>n\<close> rounds move it altogether.
\<close>

definition move :: "string \<Rightarrow> machine \<Rightarrow> int" where
  "move str s = (if str ! i s = CHR ''>'' then 1 else if str ! i s = CHR ''<'' then - 1 else 0)"

fun displacement :: "copy \<Rightarrow> env \<Rightarrow> string \<Rightarrow> nat \<Rightarrow> machine \<Rightarrow> int" where
  "displacement v e str 0 s = 0"
| "displacement v e str (Suc n) s =
     (case iteration v e str s of
        Return r s1 \<Rightarrow> 0
      | Continue s1 \<Rightarrow> move str s + displacement v e str n s1)"

text \<open>
  What one round may do to the tape: keep it well-formed, add cells at its ends only,
  at fresh addresses, move the pointer by \<open>d\<close> cells, and change the value of no old
  cell but the current one, and that one only by an instruction that writes.
\<close>

definition step_ok ::
  "string \<Rightarrow> machine \<Rightarrow> addr list \<Rightarrow> addr list \<Rightarrow> machine \<Rightarrow> int \<Rightarrow> bool" where
  "step_ok str s ls rs s' d =
     (\<exists>ls' rs' l1 r1. tape_ok s' ls' rs' \<and> cells s' ls' rs' = l1 @ cells s ls rs @ r1 \<and>
        (\<forall>a \<in> set (l1 @ r1). brk s \<le> a) \<and> brk s \<le> brk s' \<and>
        int (length ls') = int (length l1) + int (length ls) + d \<and>
        (\<forall>a < brk s. (a = ptr s \<and> writes str s) \<or> c (heap s' a) = c (heap s a)))"

subsection \<open>The run on a machine that lets it read behind the program\<close>

text \<open>
  \<^verbatim>\<open>interpret\<close> has no status for a read past the buffer: on a machine that does not
  trap, \<^verbatim>\<open>str[k]\<close> with \<open>k\<close> at or past \<^verbatim>\<open>fsize\<close> yields whatever byte lies there, and the
  run goes on. Here \<open>past k\<close> is that byte, and \<open>through str past\<close> is the memory as the
  reads through \<^verbatim>\<open>str\<close> see it. The forward scan is the same \<^verbatim>\<open>do ... while\<close>, with every
  read answered; the other cases of the \<^verbatim>\<open>switch\<close>, the loop and the final \<^verbatim>\<open>return\<close> are
  as above.
\<close>

definition through :: "string \<Rightarrow> (nat \<Rightarrow> char) \<Rightarrow> nat \<Rightarrow> char" where
  "through str past k = (if k < length str then str ! k else past k)"

function scan_fwd_mem :: "nat \<Rightarrow> (nat \<Rightarrow> char) \<Rightarrow> nat \<Rightarrow> int \<Rightarrow> nat \<times> int" where
  "scan_fwd_mem lim m k b =
     (let k1 = k + 1;
          b1 = (if m k1 = CHR ''['' then b + 1 else b);
          b2 = (if m k1 = CHR '']'' then b1 - 1 else b1)
      in if b2 \<noteq> 0 \<and> k1 < lim then scan_fwd_mem lim m k1 b2 else (k1, b2))"
  by pat_completeness auto
termination
  by (relation "measure (\<lambda>(lim, m, k, b). lim - k)") auto

definition case_open_mem :: "(nat \<Rightarrow> char) \<Rightarrow> copy \<Rightarrow> string \<Rightarrow> machine \<Rightarrow> flow" where
  "case_open_mem past v str s =
     (if ptr_c s = 0 then
        (case scan_fwd_mem (fwd_lim v str) (through str past) (i s) 1 of
           (k, b) \<Rightarrow> Continue (s\<lparr>i := k, bal := b\<rparr>))
      else Continue s)"

definition body_mem :: "(nat \<Rightarrow> char) \<Rightarrow> copy \<Rightarrow> env \<Rightarrow> string \<Rightarrow> machine \<Rightarrow> flow" where
  "body_mem past v e str s =
     (let ch = str ! i s in
      if ch = CHR ''+'' then case_plus s
      else if ch = CHR ''-'' then case_minus s
      else if ch = CHR ''<'' then case_lt e s
      else if ch = CHR ''>'' then case_gt e s
      else if ch = CHR ''.'' then case_dot v e s
      else if ch = CHR '','' then case_comma s
      else if ch = CHR ''['' then case_open_mem past v str s
      else if ch = CHR '']'' then case_close v str s
      else Continue s)"

definition iteration_mem ::
  "(nat \<Rightarrow> char) \<Rightarrow> copy \<Rightarrow> env \<Rightarrow> string \<Rightarrow> machine \<Rightarrow> flow" where
  "iteration_mem past v e str s =
     (if i s < length str then
        (case body_mem past v e str s of
           Return r s1 \<Rightarrow> Return r s1
         | Continue s1 \<Rightarrow> Continue (s1\<lparr>i := i s1 + 1\<rparr>))
      else Return (Status (if bal s \<noteq> 0 then INT_INVL else INT_SUCC)) s)"

fun loop_mem ::
  "(nat \<Rightarrow> char) \<Rightarrow> copy \<Rightarrow> env \<Rightarrow> string \<Rightarrow> nat \<Rightarrow> machine \<Rightarrow> (result \<times> machine) option"
  where
  "loop_mem past v e str 0 s = None"
| "loop_mem past v e str (Suc n) s =
     (case iteration_mem past v e str s of
        Return r s1 \<Rightarrow> Some (r, s1)
      | Continue s1 \<Rightarrow> loop_mem past v e str n s1)"


section \<open>Properties\<close>

subsection \<open>Evaluation and the current cell\<close>

declare scan_fwd.simps [simp del] scan_bwd.simps [simp del]

lemma loop_numeral:
  "loop v e str (numeral k) s =
     (case iteration v e str s of
        Return r s1 \<Rightarrow> Some (r, s1)
      | Continue s1 \<Rightarrow> loop v e str (pred_numeral k) s1)"
  by (simp add: numeral_eq_Suc)

lemma displacement_numeral:
  "displacement v e str (numeral k) s =
     (case iteration v e str s of
        Return r s1 \<Rightarrow> 0
      | Continue s1 \<Rightarrow> move str s + displacement v e str (pred_numeral k) s1)"
  by (simp add: numeral_eq_Suc)

lemma after_numeral:
  "after v e str (numeral k) s =
     (case iteration v e str s of
        Return r s1 \<Rightarrow> None
      | Continue s1 \<Rightarrow> after v e str (pred_numeral k) s1)"
  by (simp add: numeral_eq_Suc)

lemmas run_defs = interpret_fn_def fresh_def iteration_def body_def case_plus_def case_minus_def case_dot_def
  case_comma_def case_open_def case_close_def ptr_c_def set_ptr_c_def getchar_def putchar_def
  fwd_lim_def status_of_def output_of_def cell_of_def always_def rejecting_def

lemma ptr_c_set_ptr_c [simp]: "ptr_c (set_ptr_c b s) = b"
  by (simp add: ptr_c_def set_ptr_c_def)

lemma set_ptr_c_fields [simp]:
  "ptr (set_ptr_c b s) = ptr s" "i (set_ptr_c b s) = i s" "bal (set_ptr_c b s) = bal s"
  "brk (set_ptr_c b s) = brk s" "stdin (set_ptr_c b s) = stdin s"
  "stdout (set_ptr_c b s) = stdout s"
  by (simp_all add: set_ptr_c_def)

lemma set_ptr_c_twice [simp]: "set_ptr_c b (set_ptr_c a s) = set_ptr_c b s"
  by (simp add: set_ptr_c_def)

lemma set_ptr_c_same [simp]: "set_ptr_c (ptr_c s) s = s"
  by (simp add: set_ptr_c_def ptr_c_def)

lemma set_ptr_c_i [simp]: "set_ptr_c b (s\<lparr>i := n\<rparr>) = (set_ptr_c b s)\<lparr>i := n\<rparr>"
  by (simp add: set_ptr_c_def)

lemma ptr_c_i [simp]: "ptr_c (s\<lparr>i := n\<rparr>) = ptr_c s" "ptr_c (s\<lparr>bal := m\<rparr>) = ptr_c s"
  by (simp_all add: ptr_c_def)

lemma eof_byte: "(word_of_int EOF :: byte) = 255"
  by (simp add: EOF_def)

subsection \<open>Reading at the end of the input\<close>

text \<open>
  C5. When \<^verbatim>\<open>,\<close> is executed and the input is exhausted, \<^verbatim>\<open>getchar\<close> returns
  \<^verbatim>\<open>EOF\<close>, the assignment to the \<^verbatim>\<open>unsigned char\<close> truncates it to 255, and the loop goes
  on with the next instruction. This holds in all three copies.
\<close>

theorem comma_at_end_of_input:
  "i s < length str \<Longrightarrow> str ! i s = CHR '','' \<Longrightarrow> stdin s = [] \<Longrightarrow>
   body v e str s = Continue (set_ptr_c 255 s) \<and> ptr_c (set_ptr_c 255 s) = 255 \<and>
   loop v e str (Suc n) s = loop v e str n ((set_ptr_c 255 s)\<lparr>i := i s + 1\<rparr>)"
  by (simp add: iteration_def body_def case_comma_def getchar_def eof_byte)

theorem comma_at_end_of_input_witness:
  "i (fresh []) < length '','' \<and> '','' ! i (fresh []) = CHR '','' \<and> stdin (fresh []) = [] \<and>
   body Bf always '','' (fresh []) = Continue (set_ptr_c 255 (fresh [])) \<and>
   ptr_c (set_ptr_c 255 (fresh [])) = 255 \<and>
   loop Bf always '','' (Suc 1) (fresh []) =
     Some (Status INT_SUCC, (set_ptr_c 255 (fresh []))\<lparr>i := 1\<rparr>)"
  using comma_at_end_of_input [of "fresh []" "'',''" Bf always 1]
  by (simp add: fresh_def iteration_def)

subsection \<open>Cell arithmetic\<close>

lemma net_simps [simp]:
  "net [] = 0" "net (CHR ''+'' # xs) = net xs + 1" "net (CHR ''-'' # xs) = net xs - 1"
  by (simp_all add: net_def)

lemma loop_plus_minus:
  "set (drop (i s) str) \<subseteq> {CHR ''+'', CHR ''-''} \<Longrightarrow> i s \<le> length str \<Longrightarrow>
   length str - i s = m \<Longrightarrow>
   loop v e str (Suc m) s =
     Some (Status (if bal s \<noteq> 0 then INT_INVL else INT_SUCC),
           (set_ptr_c (ptr_c s + word_of_int (net (drop (i s) str))) s)\<lparr>i := length str\<rparr>)"
proof (induction m arbitrary: s)
  case 0
  then show ?case by (simp add: iteration_def)
next
  case (Suc m)
  then have lt: "i s < length str" by simp
  then have dr: "drop (i s) str = str ! i s # drop (Suc (i s)) str"
    by (simp add: Cons_nth_drop_Suc)
  with Suc.prems(1) have ch: "str ! i s = CHR ''+'' \<or> str ! i s = CHR ''-''"
    and rest: "set (drop (Suc (i s)) str) \<subseteq> {CHR ''+'', CHR ''-''}" by auto
  from ch show ?case
  proof
    assume p: "str ! i s = CHR ''+''"
    let ?t = "(set_ptr_c (ptr_c s + 1) s)\<lparr>i := Suc (i s)\<rparr>"
    have "loop v e str (Suc (Suc m)) s = loop v e str (Suc m) ?t"
      using lt p by (simp add: iteration_def body_def case_plus_def)
    also have "\<dots> = Some (Status (if bal ?t \<noteq> 0 then INT_INVL else INT_SUCC),
           (set_ptr_c (ptr_c ?t + word_of_int (net (drop (i ?t) str))) ?t)\<lparr>i := length str\<rparr>)"
      using rest lt Suc.prems by (intro Suc.IH) auto
    finally show ?thesis using p dr by (simp add: algebra_simps)
  next
    assume p: "str ! i s = CHR ''-''"
    let ?t = "(set_ptr_c (ptr_c s - 1) s)\<lparr>i := Suc (i s)\<rparr>"
    have "loop v e str (Suc (Suc m)) s = loop v e str (Suc m) ?t"
      using lt p by (simp add: iteration_def body_def case_minus_def)
    also have "\<dots> = Some (Status (if bal ?t \<noteq> 0 then INT_INVL else INT_SUCC),
           (set_ptr_c (ptr_c ?t + word_of_int (net (drop (i ?t) str))) ?t)\<lparr>i := length str\<rparr>)"
      using rest lt Suc.prems by (intro Suc.IH) auto
    finally show ?thesis using p dr by (simp add: algebra_simps)
  qed
qed

text \<open>
  C6. A program made of \<^verbatim>\<open>+\<close> and \<^verbatim>\<open>-\<close> only, run on a cell that holds \<open>v\<close>, returns
  \<^verbatim>\<open>INT_SUCC\<close> after one iteration per byte and leaves \<open>(v + n) mod 256\<close> in the cell,
  where \<open>n\<close> is the net count: the arithmetic is that of an unsigned 8-bit value, and
  nothing else of the state changes.
\<close>

theorem plus_minus_wraps:
  assumes "set str \<subseteq> {CHR ''+'', CHR ''-''}"
  shows "interpret_fn v e str (Suc (length str)) s =
           Some (Status INT_SUCC,
                 (set_ptr_c (ptr_c s + word_of_int (net str)) s)\<lparr>i := length str, bal := 0\<rparr>) \<and>
         uint (ptr_c s + word_of_int (net str)) = (uint (ptr_c s) + net str) mod 256"
proof
  let ?t = "s\<lparr>i := 0, bal := 0\<rparr>"
  have "loop v e str (Suc (length str)) ?t =
     Some (Status (if bal ?t \<noteq> 0 then INT_INVL else INT_SUCC),
           (set_ptr_c (ptr_c ?t + word_of_int (net (drop (i ?t) str))) ?t)\<lparr>i := length str\<rparr>)"
    using assms by (intro loop_plus_minus) auto
  then show "interpret_fn v e str (Suc (length str)) s =
           Some (Status INT_SUCC,
                 (set_ptr_c (ptr_c s + word_of_int (net str)) s)\<lparr>i := length str, bal := 0\<rparr>)"
    by (simp add: interpret_fn_def set_ptr_c_def ptr_c_def)
  have "ptr_c s + word_of_int (net str) = word_of_int (uint (ptr_c s) + net str)"
    by simp
  then show "uint (ptr_c s + word_of_int (net str)) = (uint (ptr_c s) + net str) mod 256"
    by (simp only: uint_word_of_int) simp
qed

theorem plus_minus_wraps_witness:
  "set ''-'' \<subseteq> {CHR ''+'', CHR ''-''} \<and>
   cell_of (interpret_fn Bf always ''-'' (Suc (length ''-'')) (fresh [])) = Some 255 \<and>
   uint (ptr_c (fresh []) + word_of_int (net ''-'')) = (uint (ptr_c (fresh [])) + net ''-'') mod 256"
  using plus_minus_wraps [of "''-''" Bf always "fresh []"]
  by (simp add: cell_of_def fresh_def ptr_c_def set_ptr_c_def)

subsection \<open>A rejected write\<close>

text \<open>
  C7, as the code has it. In \<^verbatim>\<open>bf.c\<close> a \<^verbatim>\<open>.\<close> whose write is rejected makes
  \<^verbatim>\<open>interpret\<close> return \<^verbatim>\<open>INT_IOERR\<close> at once, with the state as it was: no further
  instruction runs. The two older copies have no such status: they drop the result of
  \<^verbatim>\<open>putchar\<close> and go on with the next instruction.
\<close>

theorem rejected_write:
  "i s < length str \<Longrightarrow> str ! i s = CHR ''.'' \<Longrightarrow> \<not> wr_ok e (length (stdout s)) \<Longrightarrow>
   loop Bf e str (Suc n) s = Some (Status INT_IOERR, s) \<and>
   loop Brainfuck e str (Suc n) s = loop Brainfuck e str n (s\<lparr>i := i s + 1\<rparr>) \<and>
   loop Brainfuck_dir e str (Suc n) s = loop Brainfuck_dir e str n (s\<lparr>i := i s + 1\<rparr>)"
  by (simp add: iteration_def body_def case_dot_def putchar_def)

theorem rejected_write_witness:
  "i (fresh []) < length ''.+'' \<and> ''.+'' ! i (fresh []) = CHR ''.'' \<and>
   \<not> wr_ok rejecting (length (stdout (fresh []))) \<and>
   loop Bf rejecting ''.+'' (Suc 2) (fresh []) = Some (Status INT_IOERR, fresh [])"
  using rejected_write [of "fresh []" "''.+''" rejecting 2]
  by (simp add: fresh_def rejecting_def iteration_def)

text \<open>
  C7 as stated fails in \<^verbatim>\<open>brainfuck.c\<close>: with every write rejected, the program
  \<^verbatim>\<open>.+\<close> still runs its \<^verbatim>\<open>+\<close> and returns 0, having written nothing.
\<close>

theorem rejected_write_ignored:
  "status_of (interpret_fn Brainfuck rejecting ''.+'' 3 (fresh [])) = Some (Status INT_SUCC) \<and>
   cell_of (interpret_fn Brainfuck rejecting ''.+'' 3 (fresh [])) = Some 1 \<and>
   output_of (interpret_fn Brainfuck rejecting ''.+'' 3 (fresh [])) = Some []"
  by (simp add: run_defs loop_numeral)

subsection \<open>Unmatched brackets\<close>

text \<open>
  C1 at the program \<^verbatim>\<open>]\<close>: on the tape that \<^verbatim>\<open>main\<close> builds the cell is 0, the
  \<^verbatim>\<open>]\<close> does nothing, \<^verbatim>\<open>bal\<close> is still 0 at the end and \<^verbatim>\<open>bf.c\<close> returns
  \<^verbatim>\<open>INT_SUCC\<close>, whatever the input and the environment. So it does for \<^verbatim>\<open>[]]\<close>,
  whose last byte is never matched against anything, and for \<^verbatim>\<open>+[\<close>, whose \<^verbatim>\<open>[\<close> is
  passed with the cell at 1.
\<close>

theorem unmatched_close_accepted:
  "status_of (interpret_fn Bf e '']'' 2 (fresh inp)) = Some (Status INT_SUCC) \<and>
   status_of (interpret_fn Bf e ''[]]'' 3 (fresh inp)) = Some (Status INT_SUCC) \<and>
   status_of (interpret_fn Bf e ''+['' 3 (fresh inp)) = Some (Status INT_SUCC)"
  by (simp add: run_defs loop_numeral scan_fwd.simps)

text \<open>
  C8 at the program \<^verbatim>\<open>[\<close>: the scan increments \<^verbatim>\<open>i\<close> to 1, the length of the
  program, and reads \<^verbatim>\<open>str[1]\<close> before it tests \<^verbatim>\<open>i < fsize - 1\<close>.
\<close>

theorem open_at_end_reads_past_end:
  "scan_fwd (fwd_lim Bf ''['') ''['' 0 1 = Inl (ReadPastEnd (length ''['')) \<and>
   case_open Bf ''['' (fresh inp) = Return (Undefined (ReadPastEnd 1)) (fresh inp)"
  by (simp add: run_defs scan_fwd.simps)

section \<open>The scans and the matching bracket\<close>

subsection \<open>Stretches of the program and their balance\<close>

lemma depth_Nil [simp]: "depth [] = 0"
  by (simp add: depth_def)

lemma depth_single:
  "depth [x] = (if x = CHR ''['' then 1 else if x = CHR '']'' then - 1 else 0)"
  by (simp add: depth_def)

lemma depth_append [simp]: "depth (xs @ ys) = depth xs + depth ys"
  by (induction xs) (simp_all add: depth_def)

lemma depth_Cons: "depth (x # xs) = depth [x] + depth xs"
  using depth_append [of "[x]" xs] by simp

lemma seg_empty [simp]: "seg str a a = []"
  by (simp add: seg_def)

lemma seg_cons: "a < b \<Longrightarrow> a < length str \<Longrightarrow> seg str a b = str ! a # seg str (Suc a) b"
  by (simp add: seg_def Cons_nth_drop_Suc [symmetric] Suc_diff_Suc [symmetric] del: Suc_diff_Suc)

lemma seg_snoc: "a \<le> b \<Longrightarrow> b < length str \<Longrightarrow> seg str a (Suc b) = seg str a b @ [str ! b]"
  by (simp add: seg_def Suc_diff_le take_Suc_conv_app_nth)

lemma seg_split: "a \<le> j \<Longrightarrow> j \<le> b \<Longrightarrow> seg str a b = seg str a j @ seg str j b"
proof -
  assume le: "a \<le> j" "j \<le> b"
  have "take (b - a) (drop a str) = take (j - a) (drop a str) @ take (b - j) (drop (j - a) (drop a str))"
    using le by (metis add_diff_cancel_left' le_add_diff_inverse diff_diff_cancel take_add
        Nat.diff_diff_right Nat.add_diff_assoc2 diff_add_inverse2 le_trans)
  then show ?thesis using le by (simp add: seg_def)
qed

lemma prefix_seg:
  "prefix ys (seg str a b) \<Longrightarrow> b \<le> length str \<Longrightarrow> \<exists>j. a \<le> j \<and> (j \<le> b \<or> j = a) \<and> ys = seg str a j"
proof -
  assume p: "prefix ys (seg str a b)" and b: "b \<le> length str"
  then obtain n where n: "ys = take n (seg str a b)"
    by (metis prefixE append_eq_conv_conj)
  have "ys = seg str a (a + min n (b - a))"
    by (simp add: n seg_def min.commute)
  moreover have "a + min n (b - a) \<le> b \<or> a + min n (b - a) = a" by auto
  ultimately show ?thesis by (intro exI [of _ "a + min n (b - a)"]) auto
qed



subsection \<open>The forward scan\<close>

lemma depth_seg_first:
  "a < b \<Longrightarrow> a < length str \<Longrightarrow> depth (seg str a b) = depth [str ! a] + depth (seg str (Suc a) b)"
proof -
  assume "a < b" "a < length str"
  then have "seg str a b = [str ! a] @ seg str (Suc a) b"
    by (simp add: seg_cons)
  then show ?thesis by (simp only: depth_append)
qed

lemma depth_seg_last:
  "a \<le> b \<Longrightarrow> b < length str \<Longrightarrow> depth (seg str a (Suc b)) = depth (seg str a b) + depth [str ! b]"
  by (simp add: seg_snoc)

lemma scan_fwd_unfold:
  "scan_fwd lim str k b =
     (if length str \<le> Suc k then Inl (ReadPastEnd (Suc k))
      else if b + depth [str ! Suc k] \<noteq> 0 \<and> Suc k < lim
           then scan_fwd lim str (Suc k) (b + depth [str ! Suc k])
           else Inr (Suc k, b + depth [str ! Suc k]))"
  by (subst scan_fwd.simps) (simp add: Let_def depth_single)



subsection \<open>The backward scan\<close>

lemma scan_bwd_unfold:
  "k \<le> length str \<Longrightarrow> scan_bwd v str k b =
     (if k = 0 then
        (if v = Brainfuck_dir \<and> length str = SIZE_MAX then Inl (Undefined (ReadPastEnd SIZE_MAX))
         else Inl (Status INT_INVL))
      else if b - depth [str ! (k - 1)] \<noteq> 0
           then scan_bwd v str (k - 1) (b - depth [str ! (k - 1)])
           else Inr (k - 1, b - depth [str ! (k - 1)]))"
  by (subst scan_bwd.simps) (auto simp: Let_def depth_single)

lemma depth_single_le: "depth [x] \<le> 1"
  by (simp add: depth_single)

lemma scan_bwd_Inr:
  "scan_bwd v str k b = Inr (q, b') \<Longrightarrow> 0 < b \<Longrightarrow> k \<le> length str \<Longrightarrow>
   q < k \<and> b' = 0 \<and> depth (seg str q k) = b \<and>
   (\<forall>j. q < j \<and> j < k \<longrightarrow> depth (seg str j k) < b)"
proof (induction k arbitrary: b)
  case 0
  then show ?case by (simp add: scan_bwd_unfold split: if_splits)
next
  case (Suc k)
  let ?d = "depth [str ! k]"
  have len: "k < length str" using Suc.prems(3) by simp
  have last: "depth (seg str j (Suc k)) = depth (seg str j k) + ?d" if "j \<le> k" for j
    using that len by (simp add: depth_seg_last)
  show ?case
  proof (cases "b - ?d \<noteq> 0")
    case True
    have "scan_bwd v str (Suc k) b = scan_bwd v str k (b - ?d)"
      using True Suc.prems(3) by (subst scan_bwd_unfold) auto
    with Suc.prems(1) have rec: "scan_bwd v str k (b - ?d) = Inr (q, b')" by simp
    have pos: "0 < b - ?d" using True Suc.prems(2) depth_single_le [of "str ! k"] by linarith
    have kl: "k \<le> length str" using len by simp
    note ih = Suc.IH [OF rec pos kl]
    from ih have q: "q < k" "b' = 0" "depth (seg str q k) = b - ?d"
      and mid: "\<And>j. q < j \<Longrightarrow> j < k \<Longrightarrow> depth (seg str j k) < b - ?d"
      by blast+
    have A: "\<forall>j. q < j \<and> j < Suc k \<longrightarrow> depth (seg str j (Suc k)) < b"
    proof (intro allI impI)
      fix j assume j: "q < j \<and> j < Suc k"
      show "depth (seg str j (Suc k)) < b"
      proof (cases "j = k")
        case True
        then show ?thesis using pos last [of k] by simp
      next
        case False
        then have "q < j" "j < k" using j by simp_all
        then show ?thesis using mid [of j] last [of j] by simp
      qed
    qed
    have B: "depth (seg str q (Suc k)) = b" using q(1,3) last [of q] by simp
    show ?thesis using A B q(1,2) by simp
  next
    case False
    have "scan_bwd v str (Suc k) b = Inr (k, b - ?d)"
      using False Suc.prems(3) by (subst scan_bwd_unfold) auto
    with Suc.prems(1) have eq: "q = k" "b' = b - ?d" by auto
    show ?thesis unfolding eq using False last [of k] by auto
  qed
qed

lemma scan_bwd_Inl:
  "scan_bwd v str k b = Inl r \<Longrightarrow> 0 < b \<Longrightarrow> k \<le> length str \<Longrightarrow>
   (\<forall>j. j < k \<longrightarrow> depth (seg str j k) < b) \<and>
   r = (if v = Brainfuck_dir \<and> length str = SIZE_MAX then Undefined (ReadPastEnd SIZE_MAX)
        else Status INT_INVL)"
proof (induction k arbitrary: b)
  case 0
  then show ?case by (auto simp: scan_bwd_unfold split: if_splits)
next
  case (Suc k)
  let ?d = "depth [str ! k]"
  have len: "k < length str" using Suc.prems(3) by simp
  have last: "depth (seg str j (Suc k)) = depth (seg str j k) + ?d" if "j \<le> k" for j
    using that len by (simp add: depth_seg_last)
  have ne: "b - ?d \<noteq> 0"
  proof
    assume "b - ?d = 0"
    then have "scan_bwd v str (Suc k) b = Inr (k, b - ?d)"
      using Suc.prems(3) by (subst scan_bwd_unfold) auto
    with Suc.prems(1) show False by simp
  qed
  then have "scan_bwd v str (Suc k) b = scan_bwd v str k (b - ?d)"
    using Suc.prems(3) by (subst scan_bwd_unfold) auto
  with Suc.prems(1) have rec: "scan_bwd v str k (b - ?d) = Inl r" by simp
  have pos: "0 < b - ?d" using ne Suc.prems(2) depth_single_le [of "str ! k"] by linarith
  have kl: "k \<le> length str" using len by simp
  note ih = Suc.IH [OF rec pos kl]
  have "\<forall>j. j < Suc k \<longrightarrow> depth (seg str j (Suc k)) < b"
  proof (intro allI impI)
    fix j assume j: "j < Suc k"
    show "depth (seg str j (Suc k)) < b"
    proof (cases "j = k")
      case True
      then show ?thesis using pos last [of k] by simp
    next
      case False
      then have "j < k" using j by simp
      then show ?thesis using ih last [of j] by auto
    qed
  qed
  then show ?case using ih by simp
qed

subsection \<open>What the scans find\<close>


lemma depth_single_open: "depth [x] = 1 \<longleftrightarrow> x = CHR ''[''"
  by (simp add: depth_single)


lemma balanced_segI:
  assumes "b \<le> length str" "depth (seg str a b) = 0"
    and "\<And>j. a < j \<Longrightarrow> j \<le> b \<Longrightarrow> 0 \<le> depth (seg str a j)"
  shows "balanced (seg str a b)"
  unfolding balanced_def
proof (intro conjI ballI)
  show "depth (seg str a b) = 0" by fact
next
  fix ys assume "ys \<in> set (prefixes (seg str a b))"
  then have "prefix ys (seg str a b)" by (simp add: in_set_prefixes)
  from prefix_seg [OF this assms(1)] obtain j where j: "a \<le> j" "j \<le> b \<or> j = a" "ys = seg str a j"
    by blast
  show "0 \<le> depth ys"
  proof (cases "j = a")
    case True
    then show ?thesis using j(3) by simp
  next
    case False
    then show ?thesis using j assms(3) [of j] by auto
  qed
qed

lemma balanced_segD:
  assumes "balanced (seg str a b)" "a \<le> j" "j \<le> b" "b \<le> length str"
  shows "0 \<le> depth (seg str a j)"
proof -
  have "seg str a b = seg str a j @ seg str j b"
    using assms(2,3) by (rule seg_split)
  then have "prefix (seg str a j) (seg str a b)" by simp
  then have "seg str a j \<in> set (prefixes (seg str a b))" by (simp add: in_set_prefixes)
  with assms(1) show ?thesis by (simp add: balanced_def)
qed



lemma matchingI_bwd:
  assumes "q < p" "p < length str" "str ! p = CHR '']''"
    and start: "depth (seg str q p) = 1"
    and mid: "\<And>j. q < j \<Longrightarrow> j < p \<Longrightarrow> depth (seg str j p) < 1"
  shows "matching str q p"
proof -
  have first: "depth (seg str q p) = depth [str ! q] + depth (seg str (Suc q) p)"
    using assms(1,2) by (simp add: depth_seg_first)
  have suf: "depth (seg str j p) \<le> 0" if "q < j" "j \<le> p" for j
  proof (cases "j = p")
    case True
    then show ?thesis by simp
  next
    case False
    then show ?thesis using that mid [of j] by simp
  qed
  from suf [of "Suc q"] assms(1) have "depth (seg str (Suc q) p) \<le> 0" by simp
  with start first depth_single_le [of "str ! q"]
  have z: "depth (seg str (Suc q) p) = 0" and op: "depth [str ! q] = 1" by linarith+
  have pre: "0 \<le> depth (seg str (Suc q) j)" if "Suc q < j" "j \<le> p" for j
  proof -
    have "seg str (Suc q) p = seg str (Suc q) j @ seg str j p"
      using that by (intro seg_split) auto
    then have "depth (seg str (Suc q) p) = depth (seg str (Suc q) j) + depth (seg str j p)"
      by simp
    then show ?thesis using z suf [of j] that by simp
  qed
  have "balanced (seg str (Suc q) p)"
    using assms(2) z pre by (intro balanced_segI) auto
  then show ?thesis using assms(1,2,3) op by (simp add: matching_def depth_single_open)
qed

lemma matching_bwdD:
  assumes "matching str q p"
  shows "depth (seg str q p) = 1"
proof -
  from assms have "q < p" "p < length str" "str ! q = CHR ''[''" "depth (seg str (Suc q) p) = 0"
    by (simp_all add: matching_def balanced_def)
  then show ?thesis by (simp add: depth_seg_first depth_single)
qed

lemma matching_unique_open:
  assumes "matching str q p" "matching str q' p"
  shows "q = q'"
proof (rule ccontr)
  assume ne: "q \<noteq> q'"
  have *: False if m: "matching str a p" "matching str a' p" and lt: "a < a'" for a a'
  proof -
    from m(1) have a: "a < p" "p \<le> length str" "balanced (seg str (Suc a) p)"
      by (simp_all add: matching_def)
    from m(2) have a': "a' < p" by (simp add: matching_def)
    have "seg str (Suc a) p = seg str (Suc a) a' @ seg str a' p"
      using lt a' by (intro seg_split) auto
    then have "depth (seg str (Suc a) p) = depth (seg str (Suc a) a') + depth (seg str a' p)"
      by simp
    moreover have "depth (seg str (Suc a) p) = 0" using a(3) by (simp add: balanced_def)
    moreover have "0 \<le> depth (seg str (Suc a) a')"
      using a lt a' by (intro balanced_segD [OF a(3)]) auto
    moreover have "depth (seg str a' p) = 1" using m(2) by (rule matching_bwdD)
    ultimately show False by simp
  qed
  from ne have "q < q' \<or> q' < q" by auto
  then show False using * [of q q'] * [of q' q] assms by blast
qed

lemma scan_bwd_finds:
  assumes "scan_bwd v str p 1 = Inr (q, b)" "p < length str" "str ! p = CHR '']''"
  shows "matching str q p \<and> b = 0"
proof -
  from scan_bwd_Inr [OF assms(1)] assms(2)
  have q: "q < p" "b = 0" "depth (seg str q p) = 1"
    and mid: "\<And>j. q < j \<Longrightarrow> j < p \<Longrightarrow> depth (seg str j p) < 1"
    by auto
  from matchingI_bwd [OF q(1) assms(2,3) q(3) mid] q(2) show ?thesis by simp
qed

lemma scan_bwd_none:
  assumes "scan_bwd v str p 1 = Inl r" "p < length str"
  shows "\<not> matching str q p"
proof
  assume m: "matching str q p"
  then have "q < p" by (simp add: matching_def)
  moreover from scan_bwd_Inl [OF assms(1)] assms(2)
  have "\<forall>j. j < p \<longrightarrow> depth (seg str j p) < 1" by simp
  ultimately show False using matching_bwdD [OF m] by auto
qed

subsection \<open>The jump back\<close>

text \<open>
  C3, as the code has it. When \<^verbatim>\<open>]\<close> is executed with a nonzero cell and the backward
  scan succeeds, the scan leaves \<^verbatim>\<open>i\<close> on the one \<^verbatim>\<open>[\<close> that matches, with
  \<^verbatim>\<open>bal = 0\<close>; the \<^verbatim>\<open>++i\<close> of the \<^verbatim>\<open>for\<close> loop then moves it on, so the round ends one
  past the \<^verbatim>\<open>[\<close> and the next instruction dispatched is the one right after the
  \<^verbatim>\<open>[\<close>, which is not evaluated again.
\<close>

theorem close_jump:
  assumes "i s < length str" "str ! i s = CHR '']''" "ptr_c s \<noteq> 0"
    and "scan_bwd v str (i s) 1 = Inr (q, b)"
  shows "matching str q (i s) \<and> b = 0 \<and>
         body v e str s = Continue (s\<lparr>i := q, bal := 0\<rparr>) \<and>
         iteration v e str s = Continue (s\<lparr>i := q + 1, bal := 0\<rparr>) \<and>
         (\<forall>q'. matching str q' (i s) \<longrightarrow> q' = q)"
proof -
  from scan_bwd_finds [OF assms(4,1,2)] have m: "matching str q (i s)" and b: "b = 0"
    by simp_all
  have bd: "body v e str s = Continue (s\<lparr>i := q, bal := 0\<rparr>)"
    using assms b by (simp add: body_def case_close_def)
  then have it: "iteration v e str s = Continue (s\<lparr>i := q + 1, bal := 0\<rparr>)"
    using assms(1) by (simp add: iteration_def)
  have un: "\<forall>q'. matching str q' (i s) \<longrightarrow> q' = q"
    using m matching_unique_open by blast
  show ?thesis by (intro conjI) (fact m b bd it un)+
qed

theorem close_jump_witness:
  "i ((set_ptr_c 1 (fresh []))\<lparr>i := 2\<rparr>) < length ''[-]'' \<and>
   ''[-]'' ! i ((set_ptr_c 1 (fresh []))\<lparr>i := 2\<rparr>) = CHR '']'' \<and>
   ptr_c ((set_ptr_c 1 (fresh []))\<lparr>i := 2\<rparr>) \<noteq> 0 \<and>
   scan_bwd Bf ''[-]'' (i ((set_ptr_c 1 (fresh []))\<lparr>i := 2\<rparr>)) 1 = Inr (0, 0) \<and>
   matching ''[-]'' 0 2 \<and>
   iteration Bf always ''[-]'' ((set_ptr_c 1 (fresh []))\<lparr>i := 2\<rparr>) =
     Continue ((set_ptr_c 1 (fresh []))\<lparr>i := 1, bal := 0\<rparr>)"
proof -
  have sc: "scan_bwd Bf ''[-]'' 2 1 = Inr (0, 0)"
    by (simp add: scan_bwd.simps)
  have h: "i ((set_ptr_c 1 (fresh []))\<lparr>i := 2\<rparr>) < length ''[-]''"
    "''[-]'' ! i ((set_ptr_c 1 (fresh []))\<lparr>i := 2\<rparr>) = CHR '']''"
    "ptr_c ((set_ptr_c 1 (fresh []))\<lparr>i := 2\<rparr>) \<noteq> 0"
    "scan_bwd Bf ''[-]'' (i ((set_ptr_c 1 (fresh []))\<lparr>i := 2\<rparr>)) 1 = Inr (0, 0)"
    using sc by simp_all
  from close_jump [OF h, of always] h show ?thesis by simp
qed

text \<open>
  C3 as stated fails: in \<^verbatim>\<open>[-]\<close> with the cell at 1, the round of the \<^verbatim>\<open>]\<close>
  at position 2 ends with \<^verbatim>\<open>i = 1\<close>, where the \<^verbatim>\<open>-\<close> is, and the round after it
  has decremented the cell to 0: the \<^verbatim>\<open>[\<close> at position 0 was not dispatched.
\<close>

theorem close_jump_skips_open:
  "map_option i (after Bf always ''[-]'' 1 ((set_ptr_c 1 (fresh []))\<lparr>i := 2\<rparr>)) = Some 1 \<and>
   ''[-]'' ! 1 = CHR ''-'' \<and>
   map_option ptr_c (after Bf always ''[-]'' 2 ((set_ptr_c 1 (fresh []))\<lparr>i := 2\<rparr>)) = Some 0"
  by (simp add: run_defs after_numeral scan_bwd.simps)

subsection \<open>The jump forward\<close>


text \<open>
  The run that reads behind the program agrees with the run that stops there,
  wherever the latter reads nothing past the program.
\<close>

declare scan_fwd_mem.simps [simp del]

lemma scan_fwd_mem_unfold:
  "scan_fwd_mem lim m k b =
     (if b + depth [m (Suc k)] \<noteq> 0 \<and> Suc k < lim
      then scan_fwd_mem lim m (Suc k) (b + depth [m (Suc k)])
      else (Suc k, b + depth [m (Suc k)]))"
  by (subst scan_fwd_mem.simps) (simp add: Let_def depth_single)

lemma through_in [simp]: "k < length str \<Longrightarrow> through str past k = str ! k"
  by (simp add: through_def)

lemma through_out [simp]: "length str \<le> k \<Longrightarrow> through str past k = past k"
  by (simp add: through_def)

lemma scan_fwd_mem_agrees:
  "scan_fwd lim str k b = Inr r \<Longrightarrow> scan_fwd_mem lim (through str past) k b = r"
proof (induction n \<equiv> "length str - k" arbitrary: k b)
  case 0
  then show ?case by (subst (asm) scan_fwd_unfold) simp
next
  case (Suc n)
  let ?d = "depth [str ! Suc k]"
  from Suc.prems have len: "Suc k < length str"
    by (subst (asm) scan_fwd_unfold) (simp split: if_splits)
  then have th: "through str past (Suc k) = str ! Suc k" by simp
  show ?case
  proof (cases "b + ?d \<noteq> 0 \<and> Suc k < lim")
    case True
    then have rec: "scan_fwd lim str (Suc k) (b + ?d) = Inr r"
      using Suc.prems len by (subst (asm) scan_fwd_unfold) simp
    have n: "n = length str - Suc k" using Suc.hyps(2) by simp
    have "scan_fwd_mem lim (through str past) k b =
            scan_fwd_mem lim (through str past) (Suc k) (b + ?d)"
      using True th by (subst scan_fwd_mem_unfold) simp
    then show ?thesis using Suc.hyps(1) [OF n rec] by simp
  next
    case False
    have "scan_fwd lim str k b = Inr (Suc k, b + ?d)"
      using len False by (subst scan_fwd_unfold) auto
    with Suc.prems have "r = (Suc k, b + ?d)" by simp
    then show ?thesis using False th by (subst scan_fwd_mem_unfold) auto
  qed
qed

lemma case_open_mem_agrees:
  assumes "\<And>f s'. case_open v str s \<noteq> Return (Undefined f) s'"
  shows "case_open_mem past v str s = case_open v str s"
proof (cases "ptr_c s = 0")
  case True
  show ?thesis
  proof (cases "scan_fwd (fwd_lim v str) str (i s) 1")
    case (Inl f)
    with True assms [of f s] show ?thesis by (simp add: case_open_def)
  next
    case (Inr r)
    from scan_fwd_mem_agrees [OF Inr, of past] Inr True show ?thesis
      by (cases r) (simp add: case_open_def case_open_mem_def)
  qed
next
  case False
  then show ?thesis by (simp add: case_open_def case_open_mem_def)
qed

lemma body_mem_agrees:
  assumes "\<And>f s'. body v e str s \<noteq> Return (Undefined f) s'"
  shows "body_mem past v e str s = body v e str s"
proof -
  have op: "case_open_mem past v str s = case_open v str s" if "str ! i s = CHR ''[''"
  proof (rule case_open_mem_agrees)
    fix f s'
    from assms [of f s'] that show "case_open v str s \<noteq> Return (Undefined f) s'"
      by (simp add: body_def)
  qed
  show ?thesis using op by (simp add: body_def body_mem_def Let_def)
qed

lemma iteration_mem_agrees:
  assumes "\<And>f s'. iteration v e str s \<noteq> Return (Undefined f) s'"
  shows "iteration_mem past v e str s = iteration v e str s"
proof (cases "i s < length str")
  case True
  have "body_mem past v e str s = body v e str s"
  proof (rule body_mem_agrees)
    fix f s'
    from assms [of f s'] True show "body v e str s \<noteq> Return (Undefined f) s'"
      by (auto simp: iteration_def)
  qed
  then show ?thesis by (simp add: iteration_def iteration_mem_def)
next
  case False
  then show ?thesis by (simp add: iteration_def iteration_mem_def)
qed

lemma loop_mem_agrees:
  "(\<And>f. status_of (loop v e str n s) \<noteq> Some (Undefined f)) \<Longrightarrow>
   loop_mem past v e str n s = loop v e str n s"
proof (induction n arbitrary: s)
  case 0
  then show ?case by simp
next
  case (Suc n)
  have it: "iteration_mem past v e str s = iteration v e str s"
  proof (rule iteration_mem_agrees)
    fix f s'
    from Suc.prems [of f] show "iteration v e str s \<noteq> Return (Undefined f) s'"
      by (auto simp: status_of_def)
  qed
  show ?case
  proof (cases "iteration v e str s")
    case (Continue s1)
    have "loop_mem past v e str n s1 = loop v e str n s1"
    proof (rule Suc.IH)
      fix f
      from Suc.prems [of f] Continue
      show "status_of (loop v e str n s1) \<noteq> Some (Undefined f)" by simp
    qed
    then show ?thesis using it Continue by simp
  next
    case (Return r s1)
    then show ?thesis using it by simp
  qed
qed





section \<open>The echo program\<close>

lemma loop_after:
  "after v e str k s = Some s' \<Longrightarrow> loop v e str (k + n) s = loop v e str n s'"
proof (induction k arbitrary: s)
  case 0
  then show ?case by simp
next
  case (Suc k)
  then show ?case by (cases "iteration v e str s") simp_all
qed

lemma after_add:
  "after v e str k s = Some s' \<Longrightarrow> after v e str (k + n) s = after v e str n s'"
proof (induction k arbitrary: s)
  case 0
  then show ?case by simp
next
  case (Suc k)
  then show ?case by (cases "iteration v e str s") simp_all
qed

lemma echo_scan_bwd: "scan_bwd v '',[.,]'' 4 1 = Inr (1, 0)"
  by (simp add: scan_bwd.simps)

lemma echo_scan_fwd: "scan_fwd (fwd_lim v '',[.,]'') '',[.,]'' (Suc 0) 1 = Inr (4, 0)"
  by (simp add: scan_fwd.simps fwd_lim_def)

lemmas round_defs = iteration_def body_def case_dot_def case_comma_def case_open_def
  case_close_def getchar_def putchar_def

lemma uint_not_EOF [simp]: "uint (b :: byte) \<noteq> EOF"
proof -
  have "0 \<le> uint b" by simp
  then show ?thesis unfolding EOF_def by linarith
qed

lemma EOF_not_byte [simp]:
  "EOF \<noteq> numeral k" "numeral k \<noteq> EOF" "EOF \<noteq> 0" "EOF \<noteq> 1" "0 \<noteq> EOF" "1 \<noteq> EOF"
  by (simp_all add: EOF_def)

lemma echo_round_dot:
  "i s = 2 \<Longrightarrow> wr_ok e (length (stdout s)) \<Longrightarrow>
   iteration v e '',[.,]'' s = Continue (s\<lparr>stdout := stdout s @ [ptr_c s], i := 3\<rparr>)"
  by (simp add: round_defs)

lemma echo_round_comma:
  "i s = 3 \<Longrightarrow> stdin s = x # xs \<Longrightarrow>
   iteration v e '',[.,]'' s = Continue ((set_ptr_c x (s\<lparr>stdin := xs\<rparr>))\<lparr>i := 4\<rparr>)"
  by (simp add: round_defs)

lemma echo_round_close:
  "i s = 4 \<Longrightarrow> ptr_c s \<noteq> 0 \<Longrightarrow>
   iteration v e '',[.,]'' s = Continue (s\<lparr>i := 2, bal := 0\<rparr>)"
  by (simp add: round_defs echo_scan_bwd)

lemma echo_round_close_zero:
  "i s = 4 \<Longrightarrow> ptr_c s = 0 \<Longrightarrow> iteration v e '',[.,]'' s = Continue (s\<lparr>i := 5\<rparr>)"
  by (simp add: round_defs)

lemma echo_round_end:
  "i s = 5 \<Longrightarrow> bal s = 0 \<Longrightarrow> iteration v e '',[.,]'' s = Return (Status INT_SUCC) s"
  by (simp add: round_defs)


lemma echo_loop:
  "0 \<notin> set xs \<Longrightarrow> \<forall>n. wr_ok e n \<Longrightarrow> i s = 2 \<Longrightarrow> bal s = 0 \<Longrightarrow> ptr_c s \<noteq> 0 \<Longrightarrow>
   stdin s = xs @ 0 # ys \<Longrightarrow>
   \<exists>n s'. loop v e '',[.,]'' n s = Some (Status INT_SUCC, s') \<and>
          stdout s' = stdout s @ ptr_c s # xs \<and> stdin s' = ys"
proof (induction xs arbitrary: s)
  case Nil
  let ?s1 = "s\<lparr>stdout := stdout s @ [ptr_c s], i := 3\<rparr>"
  let ?s2 = "(set_ptr_c 0 (?s1\<lparr>stdin := ys\<rparr>))\<lparr>i := 4\<rparr>"
  let ?s3 = "?s2\<lparr>i := 5\<rparr>"
  have r1: "iteration v e '',[.,]'' s = Continue ?s1"
    using Nil.prems by (intro echo_round_dot) simp_all
  have r2: "iteration v e '',[.,]'' ?s1 = Continue ?s2"
    using Nil.prems by (intro echo_round_comma) simp_all
  have r3: "iteration v e '',[.,]'' ?s2 = Continue ?s3"
    by (intro echo_round_close_zero) simp_all
  have r4: "iteration v e '',[.,]'' ?s3 = Return (Status INT_SUCC) ?s3"
    using Nil.prems by (intro echo_round_end) simp_all
  have "loop v e '',[.,]'' (Suc (Suc (Suc (Suc 0)))) s = Some (Status INT_SUCC, ?s3)"
    by (simp only: loop.simps r1 r2 r3 r4 flow.case)
  moreover have "stdout ?s3 = stdout s @ ptr_c s # [] \<and> stdin ?s3 = ys" by simp
  ultimately show ?case by blast
next
  case (Cons x xs)
  let ?s1 = "s\<lparr>stdout := stdout s @ [ptr_c s], i := 3\<rparr>"
  let ?s2 = "(set_ptr_c x (?s1\<lparr>stdin := xs @ 0 # ys\<rparr>))\<lparr>i := 4\<rparr>"
  let ?s3 = "?s2\<lparr>i := 2, bal := 0\<rparr>"
  have x: "x \<noteq> 0" and xs: "0 \<notin> set xs" using Cons.prems(1) by auto
  have r1: "iteration v e '',[.,]'' s = Continue ?s1"
    using Cons.prems by (intro echo_round_dot) simp_all
  have r2: "iteration v e '',[.,]'' ?s1 = Continue ?s2"
    using Cons.prems by (intro echo_round_comma) simp_all
  have r3: "iteration v e '',[.,]'' ?s2 = Continue ?s3"
    using x by (intro echo_round_close) simp_all
  have "\<exists>n s'. loop v e '',[.,]'' n ?s3 = Some (Status INT_SUCC, s') \<and>
          stdout s' = stdout ?s3 @ ptr_c ?s3 # xs \<and> stdin s' = ys"
    using xs Cons.prems(2) x by (intro Cons.IH) simp_all
  then obtain n s' where n: "loop v e '',[.,]'' n ?s3 = Some (Status INT_SUCC, s')"
    "stdout s' = stdout ?s3 @ ptr_c ?s3 # xs" "stdin s' = ys" by blast
  have "loop v e '',[.,]'' (Suc (Suc (Suc n))) s = Some (Status INT_SUCC, s')"
    by (simp only: loop.simps r1 r2 r3 n(1) flow.case)
  moreover have "stdout s' = stdout s @ ptr_c s # x # xs" using n(2) by simp
  ultimately show ?case using n(3) by blast
qed


lemma echo_round_first:
  "i s = 0 \<Longrightarrow> stdin s = x # xs \<Longrightarrow>
   iteration v e '',[.,]'' s = Continue ((set_ptr_c x (s\<lparr>stdin := xs\<rparr>))\<lparr>i := 1\<rparr>)"
  by (simp add: round_defs)

lemma echo_round_first_eof:
  "i s = 0 \<Longrightarrow> stdin s = [] \<Longrightarrow>
   iteration v e '',[.,]'' s = Continue ((set_ptr_c 255 s)\<lparr>i := 1\<rparr>)"
  by (simp add: round_defs eof_byte)

lemma echo_round_comma_eof:
  "i s = 3 \<Longrightarrow> stdin s = [] \<Longrightarrow>
   iteration v e '',[.,]'' s = Continue ((set_ptr_c 255 s)\<lparr>i := 4\<rparr>)"
  by (simp add: round_defs eof_byte)

lemma echo_round_open:
  "i s = 1 \<Longrightarrow> ptr_c s \<noteq> 0 \<Longrightarrow> iteration v e '',[.,]'' s = Continue (s\<lparr>i := 2\<rparr>)"
  by (simp add: round_defs)

lemma echo_round_open_zero:
  "i s = 1 \<Longrightarrow> ptr_c s = 0 \<Longrightarrow>
   iteration v e '',[.,]'' s = Continue (s\<lparr>i := 5, bal := 0\<rparr>)"
  by (simp add: round_defs echo_scan_fwd Let_def)

lemma echo_round_dot_any:
  "i s = 2 \<Longrightarrow>
   iteration v e '',[.,]'' s = Return (Status INT_IOERR) s \<or>
   iteration v e '',[.,]'' s = Continue (s\<lparr>i := 3\<rparr>) \<or>
   iteration v e '',[.,]'' s = Continue (s\<lparr>stdout := stdout s @ [ptr_c s], i := 3\<rparr>)"
  by (simp add: round_defs)

lemma echo_success:
  assumes "0 \<notin> set xs" "\<forall>n. wr_ok e n" "stdin s = xs @ 0 # ys"
  shows "\<exists>n s'. interpret_fn v e '',[.,]'' n s = Some (Status INT_SUCC, s') \<and>
           stdout s' = stdout s @ xs \<and> stdin s' = ys"
proof (cases xs)
  case Nil
  let ?s0 = "s\<lparr>i := 0, bal := 0\<rparr>"
  let ?s1 = "(set_ptr_c 0 (?s0\<lparr>stdin := ys\<rparr>))\<lparr>i := 1\<rparr>"
  let ?s2 = "?s1\<lparr>i := 5, bal := 0\<rparr>"
  have r1: "iteration v e '',[.,]'' ?s0 = Continue ?s1"
    using assms(3) Nil by (intro echo_round_first) simp_all
  have r2: "iteration v e '',[.,]'' ?s1 = Continue ?s2"
    by (intro echo_round_open_zero) simp_all
  have r3: "iteration v e '',[.,]'' ?s2 = Return (Status INT_SUCC) ?s2"
    by (intro echo_round_end) simp_all
  have "interpret_fn v e '',[.,]'' (Suc (Suc (Suc 0))) s = Some (Status INT_SUCC, ?s2)"
    by (simp only: interpret_fn_def loop.simps r1 r2 r3 flow.case)
  moreover have "stdout ?s2 = stdout s @ xs \<and> stdin ?s2 = ys" using Nil by simp
  ultimately show ?thesis by blast
next
  case (Cons x xs')
  let ?s0 = "s\<lparr>i := 0, bal := 0\<rparr>"
  let ?s1 = "(set_ptr_c x (?s0\<lparr>stdin := xs' @ 0 # ys\<rparr>))\<lparr>i := 1\<rparr>"
  let ?s2 = "?s1\<lparr>i := 2\<rparr>"
  have x: "x \<noteq> 0" and xs': "0 \<notin> set xs'" using assms(1) Cons by auto
  have r1: "iteration v e '',[.,]'' ?s0 = Continue ?s1"
    using assms(3) Cons by (intro echo_round_first) simp_all
  have r2: "iteration v e '',[.,]'' ?s1 = Continue ?s2"
    using x by (intro echo_round_open) simp_all
  have "\<exists>n s'. loop v e '',[.,]'' n ?s2 = Some (Status INT_SUCC, s') \<and>
          stdout s' = stdout ?s2 @ ptr_c ?s2 # xs' \<and> stdin s' = ys"
    using xs' assms(2) x by (intro echo_loop) simp_all
  then obtain n s' where n: "loop v e '',[.,]'' n ?s2 = Some (Status INT_SUCC, s')"
    "stdout s' = stdout ?s2 @ ptr_c ?s2 # xs'" "stdin s' = ys" by blast
  have "interpret_fn v e '',[.,]'' (Suc (Suc n)) s = Some (Status INT_SUCC, s')"
    by (simp only: interpret_fn_def loop.simps r1 r2 n(1) flow.case)
  moreover have "stdout s' = stdout s @ xs" using n(2) Cons by simp
  ultimately show ?thesis using n(3) by blast
qed

lemma echo_loop_no_success:
  "i s \<in> {1, 2, 3, 4} \<Longrightarrow> ptr_c s \<noteq> 0 \<Longrightarrow> 0 \<notin> set (stdin s) \<Longrightarrow>
   status_of (loop v e '',[.,]'' n s) \<noteq> Some (Status INT_SUCC)"
proof (induction n arbitrary: s)
  case 0
  then show ?case by (simp add: status_of_def)
next
  case (Suc n)
  from Suc.prems(1) consider "i s = 1" | "i s = 2" | "i s = 3" | "i s = 4" by auto
  then show ?case
  proof cases
    case 1
    have "status_of (loop v e '',[.,]'' n (s\<lparr>i := 2\<rparr>)) \<noteq> Some (Status INT_SUCC)"
      using Suc.prems by (intro Suc.IH) simp_all
    then show ?thesis using echo_round_open [OF 1 Suc.prems(2)] by simp
  next
    case 2
    have a: "status_of (loop v e '',[.,]'' n (s\<lparr>i := 3\<rparr>)) \<noteq> Some (Status INT_SUCC)"
      using Suc.prems by (intro Suc.IH) simp_all
    have b: "status_of (loop v e '',[.,]'' n (s\<lparr>stdout := stdout s @ [ptr_c s], i := 3\<rparr>))
               \<noteq> Some (Status INT_SUCC)"
      using Suc.prems by (intro Suc.IH) (simp_all add: ptr_c_def)
    from echo_round_dot_any [OF 2, of v e] show ?thesis
      using a b by (auto simp: status_of_def)
  next
    case 3
    show ?thesis
    proof (cases "stdin s")
      case Nil
      have "status_of (loop v e '',[.,]'' n ((set_ptr_c 255 s)\<lparr>i := 4\<rparr>)) \<noteq> Some (Status INT_SUCC)"
        using Suc.prems by (intro Suc.IH) simp_all
      then show ?thesis using echo_round_comma_eof [OF 3 Nil] by simp
    next
      case (Cons x xs)
      have "status_of (loop v e '',[.,]'' n ((set_ptr_c x (s\<lparr>stdin := xs\<rparr>))\<lparr>i := 4\<rparr>))
              \<noteq> Some (Status INT_SUCC)"
        using Suc.prems Cons by (intro Suc.IH) auto
      then show ?thesis using echo_round_comma [OF 3 Cons] by simp
    qed
  next
    case 4
    have "status_of (loop v e '',[.,]'' n (s\<lparr>i := 2, bal := 0\<rparr>)) \<noteq> Some (Status INT_SUCC)"
      using Suc.prems by (intro Suc.IH) simp_all
    then show ?thesis using echo_round_close [OF 4 Suc.prems(2)] by simp
  qed
qed

lemma echo_no_success:
  assumes "0 \<notin> set (stdin s)"
  shows "status_of (interpret_fn v e '',[.,]'' n s) \<noteq> Some (Status INT_SUCC)"
proof (cases n)
  case 0
  then show ?thesis by (simp add: interpret_fn_def status_of_def)
next
  case (Suc m)
  let ?s0 = "s\<lparr>i := 0, bal := 0\<rparr>"
  show ?thesis
  proof (cases "stdin s")
    case Nil
    have "status_of (loop v e '',[.,]'' m ((set_ptr_c 255 ?s0)\<lparr>i := 1\<rparr>)) \<noteq> Some (Status INT_SUCC)"
      by (intro echo_loop_no_success) (simp_all add: Nil)
    moreover have "iteration v e '',[.,]'' ?s0 = Continue ((set_ptr_c 255 ?s0)\<lparr>i := 1\<rparr>)"
      using Nil by (intro echo_round_first_eof) simp_all
    ultimately show ?thesis using Suc by (simp add: interpret_fn_def)
  next
    case (Cons x xs)
    have "status_of (loop v e '',[.,]'' m ((set_ptr_c x (?s0\<lparr>stdin := xs\<rparr>))\<lparr>i := 1\<rparr>))
            \<noteq> Some (Status INT_SUCC)"
      using assms Cons by (intro echo_loop_no_success) auto
    moreover have "iteration v e '',[.,]'' ?s0 = Continue ((set_ptr_c x (?s0\<lparr>stdin := xs\<rparr>))\<lparr>i := 1\<rparr>)"
      using Cons by (intro echo_round_first) simp_all
    ultimately show ?thesis using Suc by (simp add: interpret_fn_def)
  qed
qed


text \<open>
  C4, as the code has it. On an input that holds a zero byte, and with no write
  rejected, \<^verbatim>\<open>,[.,]\<close> writes the bytes that precede the first zero byte, unchanged and
  in order, and returns \<^verbatim>\<open>INT_SUCC\<close> when it reads that zero byte, leaving the rest of
  the input unread. On an input without a zero byte the run never returns
  \<^verbatim>\<open>INT_SUCC\<close>: at the end of the input \<^verbatim>\<open>,\<close> stores 255 and the loop goes on.
\<close>

theorem echo_until_zero:
  "(0 \<notin> set xs \<and> (\<forall>n. wr_ok e n) \<and> stdin s = xs @ 0 # ys \<longrightarrow>
      (\<exists>n s'. interpret_fn v e '',[.,]'' n s = Some (Status INT_SUCC, s') \<and>
              stdout s' = stdout s @ xs \<and> stdin s' = ys)) \<and>
   (0 \<notin> set (stdin s) \<longrightarrow>
      (\<forall>n. status_of (interpret_fn v e '',[.,]'' n s) \<noteq> Some (Status INT_SUCC)))"
  using echo_success [of xs e s ys v] echo_no_success [of s v e] by blast

theorem echo_until_zero_witness:
  "0 \<notin> set [65 :: byte] \<and> (\<forall>n. wr_ok always n) \<and> stdin (fresh [65, 0, 66]) = [65] @ 0 # [66] \<and>
   (\<exists>n s'. interpret_fn Bf always '',[.,]'' n (fresh [65, 0, 66]) = Some (Status INT_SUCC, s') \<and>
           stdout s' = [65] \<and> stdin s' = [66]) \<and>
   0 \<notin> set (stdin (fresh [65])) \<and>
   (\<forall>n. status_of (interpret_fn Bf always '',[.,]'' n (fresh [65])) \<noteq> Some (Status INT_SUCC))"
  using echo_until_zero [where xs = "[65]" and e = always and s = "fresh [65, 0, 66]"
      and ys = "[66]" and v = Bf]
    echo_until_zero [where s = "fresh [65]" and e = always and v = Bf]
  by (simp add: fresh_def always_def)

text \<open>
  C4 as stated fails: on the empty input the third round writes the byte 255,
  and on the input 65, 0, 66 the run ends with the output 65.
\<close>

theorem echo_fails_at_end_of_input:
  "map_option stdout (after Bf always '',[.,]'' 3 (fresh [])) = Some [255] \<and>
   output_of (interpret_fn Bf always '',[.,]'' 6 (fresh [65, 0, 66])) = Some [65]"
  by (simp add: run_defs after_numeral loop_numeral eof_byte scan_bwd.simps scan_fwd.simps)

section \<open>The three copies\<close>

lemma scan_bwd_newer:
  "v \<noteq> Brainfuck_dir \<Longrightarrow> v' \<noteq> Brainfuck_dir \<Longrightarrow> scan_bwd v str k b = scan_bwd v' str k b"
proof (induction k arbitrary: b)
  case 0
  then show ?case by (simp add: scan_bwd.simps [of _ _ 0])
next
  case (Suc k)
  show ?case
    by (subst scan_bwd.simps, subst (2) scan_bwd.simps) (simp add: Suc Let_def)
qed

lemma case_dot_bf_brainfuck:
  "\<forall>n. wr_ok e n \<Longrightarrow> case_dot Bf e s = case_dot Brainfuck e s"
  by (simp add: case_dot_def putchar_def)

lemma case_open_bf_brainfuck: "case_open Bf str s = case_open Brainfuck str s"
  by (simp add: case_open_def fwd_lim_def)

lemma case_close_bf_brainfuck: "case_close Bf str s = case_close Brainfuck str s"
  by (simp add: case_close_def scan_bwd_newer [of Bf Brainfuck])

lemma body_bf_brainfuck:
  "\<forall>n. wr_ok e n \<Longrightarrow> body Bf e str s = body Brainfuck e str s"
  by (simp add: body_def Let_def case_dot_bf_brainfuck case_open_bf_brainfuck
      case_close_bf_brainfuck cong: if_cong)

lemma loop_bf_brainfuck:
  "\<forall>n. wr_ok e n \<Longrightarrow> loop Bf e str n s = loop Brainfuck e str n s"
proof (induction n arbitrary: s)
  case 0
  then show ?case by simp
next
  case (Suc n)
  have "iteration Bf e str s = iteration Brainfuck e str s"
    using Suc.prems by (simp add: iteration_def body_bf_brainfuck)
  then show ?case using Suc by (simp split: flow.splits)
qed

lemma scan_bwd_oldest:
  "(\<And>f. scan_bwd Brainfuck_dir str k b \<noteq> Inl (Undefined f)) \<Longrightarrow>
   scan_bwd Brainfuck str k b = scan_bwd Brainfuck_dir str k b"
proof (induction k arbitrary: b)
  case 0
  from "0.prems" [of "ReadPastEnd SIZE_MAX"] show ?case
    by (simp add: scan_bwd.simps [of _ _ 0] split: if_splits)
next
  case (Suc k)
  let ?b1 = "if str ! k = CHR '']'' then b + 1 else b"
  let ?b2 = "if str ! k = CHR ''['' then ?b1 - 1 else ?b1"
  show ?case
  proof (cases "length str \<le> k")
    case True
    from Suc.prems [of "ReadPastEnd k"] True show ?thesis
      by (subst scan_bwd.simps, subst (2) scan_bwd.simps)
         (simp add: Let_def scan_bwd.simps [of Brainfuck_dir _ "Suc k"] split: if_splits)
  next
    case False
    show ?thesis
    proof (cases "?b2 = 0")
      case True
      then show ?thesis using False
        by (subst scan_bwd.simps, subst (2) scan_bwd.simps) (simp add: Let_def)
    next
      case nz: False
      have eq: "scan_bwd Brainfuck_dir str (Suc k) b = scan_bwd Brainfuck_dir str k ?b2"
        using False nz by (subst scan_bwd.simps) (simp add: Let_def)
      have eq': "scan_bwd Brainfuck str (Suc k) b = scan_bwd Brainfuck str k ?b2"
        using False nz by (subst scan_bwd.simps) (simp add: Let_def)
      have "scan_bwd Brainfuck str k ?b2 = scan_bwd Brainfuck_dir str k ?b2"
        using Suc.prems eq by (intro Suc.IH) auto
      then show ?thesis using eq eq' by simp
    qed
  qed
qed

lemma scan_fwd_oldest:
  "scan_fwd (length str) str k b = Inr r \<Longrightarrow> scan_fwd (length str - 1) str k b = Inr r"
proof (induction m \<equiv> "length str - k" arbitrary: k b)
  case 0
  then show ?case by (subst (asm) scan_fwd_unfold) simp
next
  case (Suc m)
  let ?d = "depth [str ! Suc k]"
  from Suc.prems have len: "Suc k < length str"
    by (subst (asm) scan_fwd_unfold) (simp split: if_splits)
  show ?case
  proof (cases "b + ?d \<noteq> 0")
    case True
    then have rec: "scan_fwd (length str) str (Suc k) (b + ?d) = Inr r"
      using Suc.prems len by (subst (asm) scan_fwd_unfold) simp
    have m: "m = length str - Suc k" using Suc.hyps(2) by simp
    from rec have "Suc (Suc k) < length str"
      by (subst (asm) scan_fwd_unfold) (simp split: if_splits)
    then have "scan_fwd (length str - 1) str k b = scan_fwd (length str - 1) str (Suc k) (b + ?d)"
      using True by (subst scan_fwd_unfold) auto
    then show ?thesis using Suc.hyps(1) [OF m rec] by simp
  next
    case False
    then have "r = (Suc k, b + ?d)"
      using Suc.prems len by (subst (asm) scan_fwd_unfold) auto
    then show ?thesis using False len by (subst scan_fwd_unfold) auto
  qed
qed


lemma case_dot_oldest: "case_dot Brainfuck e s = case_dot Brainfuck_dir e s"
  by (simp add: case_dot_def)

lemma case_open_oldest:
  assumes "\<And>f s'. case_open Brainfuck_dir str s \<noteq> Return (Undefined f) s'"
  shows "case_open Brainfuck str s = case_open Brainfuck_dir str s"
proof (cases "ptr_c s = 0")
  case True
  show ?thesis
  proof (cases "scan_fwd (length str) str (i s) 1")
    case (Inl f)
    with True assms [of f s] show ?thesis by (simp add: case_open_def fwd_lim_def)
  next
    case (Inr r)
    from scan_fwd_oldest [OF Inr] Inr show ?thesis by (simp add: case_open_def fwd_lim_def)
  qed
next
  case False
  then show ?thesis by (simp add: case_open_def)
qed

lemma case_close_oldest:
  assumes "\<And>f s'. case_close Brainfuck_dir str s \<noteq> Return (Undefined f) s'"
  shows "case_close Brainfuck str s = case_close Brainfuck_dir str s"
proof (cases "ptr_c s = 0")
  case True
  then show ?thesis by (simp add: case_close_def)
next
  case False
  have "scan_bwd Brainfuck_dir str (i s) 1 \<noteq> Inl (Undefined f)" for f
    using assms [of f s] False by (auto simp: case_close_def)
  then have "scan_bwd Brainfuck str (i s) 1 = scan_bwd Brainfuck_dir str (i s) 1"
    by (rule scan_bwd_oldest)
  then show ?thesis by (simp add: case_close_def)
qed

lemma body_oldest:
  assumes "\<And>f s'. body Brainfuck_dir e str s \<noteq> Return (Undefined f) s'"
  shows "body Brainfuck e str s = body Brainfuck_dir e str s"
proof -
  have op: "case_open Brainfuck str s = case_open Brainfuck_dir str s"
    if "str ! i s = CHR ''[''"
  proof (rule case_open_oldest)
    fix f s'
    from assms [of f s'] that show "case_open Brainfuck_dir str s \<noteq> Return (Undefined f) s'"
      by (simp add: body_def)
  qed
  have cl: "case_close Brainfuck str s = case_close Brainfuck_dir str s"
    if "str ! i s = CHR '']''"
  proof (rule case_close_oldest)
    fix f s'
    from assms [of f s'] that show "case_close Brainfuck_dir str s \<noteq> Return (Undefined f) s'"
      by (simp add: body_def)
  qed
  show ?thesis using op cl by (simp add: body_def Let_def case_dot_oldest)
qed

lemma iteration_oldest:
  assumes "\<And>f s'. iteration Brainfuck_dir e str s \<noteq> Return (Undefined f) s'"
  shows "iteration Brainfuck e str s = iteration Brainfuck_dir e str s"
proof (cases "i s < length str")
  case True
  have "body Brainfuck e str s = body Brainfuck_dir e str s"
  proof (rule body_oldest)
    fix f s'
    from assms [of f s'] True show "body Brainfuck_dir e str s \<noteq> Return (Undefined f) s'"
      by (auto simp: iteration_def)
  qed
  then show ?thesis by (simp add: iteration_def)
next
  case False
  then show ?thesis by (simp add: iteration_def)
qed

lemma loop_oldest:
  "(\<And>f. status_of (loop Brainfuck_dir e str n s) \<noteq> Some (Undefined f)) \<Longrightarrow>
   loop Brainfuck e str n s = loop Brainfuck_dir e str n s"
proof (induction n arbitrary: s)
  case 0
  then show ?case by simp
next
  case (Suc n)
  have it: "iteration Brainfuck e str s = iteration Brainfuck_dir e str s"
  proof (rule iteration_oldest)
    fix f s'
    from Suc.prems [of f] show "iteration Brainfuck_dir e str s \<noteq> Return (Undefined f) s'"
      by (auto simp: status_of_def)
  qed
  show ?case
  proof (cases "iteration Brainfuck_dir e str s")
    case (Continue s1)
    have "loop Brainfuck e str n s1 = loop Brainfuck_dir e str n s1"
    proof (rule Suc.IH)
      fix f
      from Suc.prems [of f] Continue
      show "status_of (loop Brainfuck_dir e str n s1) \<noteq> Some (Undefined f)" by simp
    qed
    then show ?thesis using it Continue by simp
  next
    case (Return r s1)
    then show ?thesis using it by simp
  qed
qed

text \<open>
  C10, as the code has it. \<^verbatim>\<open>bf.c\<close> and \<^verbatim>\<open>brainfuck.c\<close> return the same, and leave
  the same state and output, on every run in which no write is rejected; and
  \<^verbatim>\<open>brainfuck/brainfuck.c\<close> agrees with \<^verbatim>\<open>brainfuck.c\<close> on every run in which it reads
  no byte past the program. A run that is cut short after \<open>n\<close> rounds is cut short in
  the other copy too.
\<close>

theorem copies_agree:
  "((\<forall>n. wr_ok e n) \<longrightarrow> interpret_fn Bf e str n s = interpret_fn Brainfuck e str n s) \<and>
   ((\<forall>f. status_of (interpret_fn Brainfuck_dir e str n s) \<noteq> Some (Undefined f)) \<longrightarrow>
      interpret_fn Brainfuck_dir e str n s = interpret_fn Brainfuck e str n s)"
  using loop_bf_brainfuck [of e str n "s\<lparr>i := 0, bal := 0\<rparr>"]
    loop_oldest [of e str n "s\<lparr>i := 0, bal := 0\<rparr>"]
  by (simp add: interpret_fn_def)

theorem copies_agree_witness:
  "(\<forall>n. wr_ok always n) \<and>
   interpret_fn Bf always ''+.'' 3 (fresh []) = interpret_fn Brainfuck always ''+.'' 3 (fresh []) \<and>
   output_of (interpret_fn Bf always ''+.'' 3 (fresh [])) = Some [1] \<and>
   (\<forall>f. status_of (interpret_fn Brainfuck_dir always ''+.'' 3 (fresh [])) \<noteq> Some (Undefined f)) \<and>
   interpret_fn Brainfuck_dir always ''+.'' 3 (fresh []) =
     interpret_fn Brainfuck always ''+.'' 3 (fresh [])"
proof -
  have w: "\<forall>n. wr_ok always n" by (simp add: always_def)
  have st: "status_of (interpret_fn Brainfuck_dir always ''+.'' 3 (fresh [])) = Some (Status INT_SUCC)"
    by (simp add: run_defs loop_numeral)
  have out: "output_of (interpret_fn Bf always ''+.'' 3 (fresh [])) = Some [1]"
    by (simp add: run_defs loop_numeral)
  from st have nf: "\<forall>f. status_of (interpret_fn Brainfuck_dir always ''+.'' 3 (fresh [])) \<noteq> Some (Undefined f)"
    by simp
  from copies_agree [of always "''+.''" 3 "fresh []"] w nf out show ?thesis by simp
qed

text \<open>
  C10 as stated fails: when the write of \<^verbatim>\<open>.\<close> is rejected, \<^verbatim>\<open>bf.c\<close> fails with
  \<^verbatim>\<open>INT_IOERR\<close> and the two older copies return 0.
\<close>

theorem copies_differ:
  "status_of (interpret_fn Bf rejecting ''.'' 2 (fresh [])) = Some (Status INT_IOERR) \<and>
   status_of (interpret_fn Brainfuck rejecting ''.'' 2 (fresh [])) = Some (Status INT_SUCC) \<and>
   status_of (interpret_fn Brainfuck_dir rejecting ''.'' 2 (fresh [])) = Some (Status INT_SUCC)"
  by (simp add: run_defs loop_numeral)

text \<open>
  Where the oldest copy leaves the other two: a scan that finds no match goes on to
  \<^verbatim>\<open>str[fsize]\<close>.
\<close>

lemma oldest_copy_reads_past_end:
  "status_of (interpret_fn Bf always ''[+'' 2 (fresh [])) = Some (Status INT_INVL) \<and>
   status_of (interpret_fn Brainfuck always ''[+'' 2 (fresh [])) = Some (Status INT_INVL) \<and>
   status_of (interpret_fn Brainfuck_dir always ''[+'' 2 (fresh [])) = Some (Undefined (ReadPastEnd 2))"
  by (simp add: run_defs loop_numeral scan_fwd.simps)

section \<open>The tape\<close>

lemma chain_prev_upd:
  "a \<notin> set (p # qs) \<Longrightarrow> chain_prev (h(a := x)) p qs = chain_prev h p qs"
  by (induction qs arbitrary: p) auto

lemma chain_next_upd:
  "a \<notin> set (p # qs) \<Longrightarrow> chain_next (h(a := x)) p qs = chain_next h p qs"
  by (induction qs arbitrary: p) auto

lemma chain_prev_links:
  "prev x = prev (h a) \<Longrightarrow> next x = next (h a) \<Longrightarrow>
   chain_prev (h(a := x)) p qs = chain_prev h p qs"
  by (induction qs arbitrary: p) auto

lemma chain_next_links:
  "prev x = prev (h a) \<Longrightarrow> next x = next (h a) \<Longrightarrow>
   chain_next (h(a := x)) p qs = chain_next h p qs"
  by (induction qs arbitrary: p) auto

lemma chain_prev_head:
  "p \<notin> set qs \<Longrightarrow> prev x = prev (h p) \<Longrightarrow> chain_prev (h(p := x)) p qs = chain_prev h p qs"
  by (cases qs) (auto simp: chain_prev_upd)

lemma chain_next_head:
  "p \<notin> set qs \<Longrightarrow> next x = next (h p) \<Longrightarrow> chain_next (h(p := x)) p qs = chain_next h p qs"
  by (cases qs) (auto simp: chain_next_upd)

lemma tape_ok_set_ptr_c: "tape_ok (set_ptr_c b s) ls rs = tape_ok s ls rs"
  by (simp add: tape_ok_def set_ptr_c_def chain_prev_links chain_next_links)

lemma tape_ok_fields [simp]:
  "tape_ok (s\<lparr>i := k\<rparr>) ls rs = tape_ok s ls rs"
  "tape_ok (s\<lparr>bal := m\<rparr>) ls rs = tape_ok s ls rs"
  "tape_ok (s\<lparr>stdin := xs\<rparr>) ls rs = tape_ok s ls rs"
  "tape_ok (s\<lparr>stdout := ys\<rparr>) ls rs = tape_ok s ls rs"
  by (simp_all add: tape_ok_def)


lemma step_ok_same:
  assumes "tape_ok s ls rs" "ptr s' = ptr s" "brk s' = brk s"
    and "heap s' = heap s \<or> (\<exists>b. heap s' = (heap s)(ptr s := (heap s (ptr s))\<lparr>c := b\<rparr>) \<and> writes str s)"
  shows "step_ok str s ls rs s' 0"
proof -
  have "tape_ok s' ls rs"
    using assms by (auto simp: tape_ok_def chain_prev_links chain_next_links)
  moreover have "cells s' ls rs = [] @ cells s ls rs @ []" using assms(2) by (simp add: cells_def)
  moreover have "\<forall>a < brk s. (a = ptr s \<and> writes str s) \<or> c (heap s' a) = c (heap s a)"
    using assms(4) by (auto split: if_splits)
  ultimately show ?thesis unfolding step_ok_def using assms(3)
    by (intro exI [of _ ls] exI [of _ rs] exI [of _ "[]"]) simp
qed

lemma case_lt_tape:
  assumes ok: "tape_ok s ls rs" and st: "case_lt e s = Continue s'"
  shows "step_ok str s ls rs s' (- 1)"
proof (cases "prev (heap s (ptr s))")
  case (Some q)
  with st have s': "s' = s\<lparr>ptr := q\<rparr>" by (simp add: case_lt_def)
  from ok Some obtain ls0 where ls: "ls = q # ls0"
    by (cases ls) (auto simp: tape_ok_def)
  have "tape_ok s' ls0 (ptr s # rs)"
    using ok ls unfolding s' by (auto simp: tape_ok_def)
  moreover have "cells s' ls0 (ptr s # rs) = [] @ cells s ls rs @ []"
    unfolding s' by (simp add: cells_def ls)
  moreover have "\<forall>a < brk s. (a = ptr s \<and> writes str s) \<or> c (heap s' a) = c (heap s a)"
    unfolding s' by simp
  moreover have "brk s \<le> brk s'" unfolding s' by simp
  ultimately show ?thesis unfolding step_ok_def
    by (intro exI [of _ ls0] exI [of _ "ptr s # rs"] exI [of _ "[]"]) (simp add: ls)
next
  case None
  let ?p = "ptr s" and ?n = "brk s" and ?h = "heap s"
  let ?h' = "(?h(?p := (?h ?p)\<lparr>prev := Some ?n\<rparr>))(?n := \<lparr>c = 0, prev = None, next = Some ?p\<rparr>)"
  from st None have s': "s' = s\<lparr>brk := ?n + 1, heap := ?h', ptr := ?n\<rparr>"
    by (simp add: case_lt_def malloc_def Let_def split: if_splits)
  from ok None have ls: "ls = []" by (cases ls) (auto simp: tape_ok_def)
  from ok have lt: "?p < ?n" "\<forall>a \<in> set rs. a < ?n" "?p \<notin> set rs" "distinct rs"
    and cn: "chain_next ?h ?p rs"
    by (auto simp: tape_ok_def)
  have n_rs: "?n \<notin> set (?p # rs)" using lt by auto
  have "chain_next ?h' ?p rs = chain_next (?h(?p := (?h ?p)\<lparr>prev := Some ?n\<rparr>)) ?p rs"
    using n_rs by (rule chain_next_upd)
  also have "\<dots> = chain_next ?h ?p rs"
    using lt(3) by (intro chain_next_head) simp_all
  finally have cn': "chain_next ?h' ?p rs" using cn by simp
  have "tape_ok s' [] (?p # rs)"
    unfolding s' using cn' lt n_rs by (auto simp: tape_ok_def)
  moreover have "cells s' [] (?p # rs) = [?n] @ cells s ls rs @ []"
    unfolding s' by (simp add: cells_def ls)
  moreover have "\<forall>a < brk s. (a = ptr s \<and> writes str s) \<or> c (heap s' a) = c (heap s a)"
    unfolding s' by simp
  moreover have "brk s \<le> brk s'" unfolding s' by simp
  ultimately show ?thesis unfolding step_ok_def
    by (intro exI [of _ "[]"] exI [of _ "?p # rs"] exI [of _ "[?n]"]) (simp add: ls)
qed


lemma case_gt_tape:
  assumes ok: "tape_ok s ls rs" and st: "case_gt e s = Continue s'"
  shows "step_ok str s ls rs s' 1"
proof (cases "next (heap s (ptr s))")
  case (Some q)
  with st have s': "s' = s\<lparr>ptr := q\<rparr>" by (simp add: case_gt_def)
  from ok Some obtain rs0 where rs: "rs = q # rs0"
    by (cases rs) (auto simp: tape_ok_def)
  have "tape_ok s' (ptr s # ls) rs0"
    using ok rs unfolding s' by (auto simp: tape_ok_def)
  moreover have "cells s' (ptr s # ls) rs0 = [] @ cells s ls rs @ []"
    unfolding s' by (simp add: cells_def rs)
  moreover have "\<forall>a < brk s. (a = ptr s \<and> writes str s) \<or> c (heap s' a) = c (heap s a)"
    unfolding s' by simp
  moreover have "brk s \<le> brk s'" unfolding s' by simp
  ultimately show ?thesis unfolding step_ok_def
    by (intro exI [of _ "ptr s # ls"] exI [of _ rs0] exI [of _ "[]"]) simp
next
  case None
  let ?p = "ptr s" and ?n = "brk s" and ?h = "heap s"
  let ?h' = "(?h(?p := (?h ?p)\<lparr>next := Some ?n\<rparr>))(?n := \<lparr>c = 0, prev = Some ?p, next = None\<rparr>)"
  from st None have s': "s' = s\<lparr>brk := ?n + 1, heap := ?h', ptr := ?n\<rparr>"
    by (simp add: case_gt_def malloc_def Let_def split: if_splits)
  from ok None have rs: "rs = []" by (cases rs) (auto simp: tape_ok_def)
  from ok have lt: "?p < ?n" "\<forall>a \<in> set ls. a < ?n" "?p \<notin> set ls" "distinct ls"
    and cp: "chain_prev ?h ?p ls"
    by (auto simp: tape_ok_def)
  have n_ls: "?n \<notin> set (?p # ls)" using lt by auto
  have "chain_prev ?h' ?p ls = chain_prev (?h(?p := (?h ?p)\<lparr>next := Some ?n\<rparr>)) ?p ls"
    using n_ls by (rule chain_prev_upd)
  also have "\<dots> = chain_prev ?h ?p ls"
    using lt(3) by (intro chain_prev_head) simp_all
  finally have cp': "chain_prev ?h' ?p ls" using cp by simp
  have "tape_ok s' (?p # ls) []"
    unfolding s' using cp' lt n_ls by (auto simp: tape_ok_def)
  moreover have "cells s' (?p # ls) [] = [] @ cells s ls rs @ [?n]"
    unfolding s' by (simp add: cells_def rs)
  moreover have "\<forall>a < brk s. (a = ptr s \<and> writes str s) \<or> c (heap s' a) = c (heap s a)"
    unfolding s' by simp
  moreover have "brk s \<le> brk s'" unfolding s' by simp
  ultimately show ?thesis unfolding step_ok_def
    by (intro exI [of _ "?p # ls"] exI [of _ "[]"] exI [of _ "[]"] exI [of _ "[?n]"]) simp
qed

lemma body_tape:
  assumes ok: "tape_ok s ls rs" and st: "body v e str s = Continue s'"
  shows "step_ok str s ls rs s' (move str s)"
proof -
  consider (plus) "str ! i s = CHR ''+''" | (minus) "str ! i s = CHR ''-''"
    | (lt) "str ! i s = CHR ''<''" | (gt) "str ! i s = CHR ''>''"
    | (dot) "str ! i s = CHR ''.''" | (comma) "str ! i s = CHR '',''"
    | (opn) "str ! i s = CHR ''[''" | (cls) "str ! i s = CHR '']''"
    | (other) "str ! i s \<notin> {CHR ''+'', CHR ''-'', CHR ''<'', CHR ''>'', CHR ''.'', CHR '','',
         CHR ''['', CHR '']''}"
    by blast
  then show ?thesis
  proof cases
    case plus
    with st have "s' = set_ptr_c (ptr_c s + 1) s" by (simp add: body_def case_plus_def)
    then have "step_ok str s ls rs s' 0"
      using plus by (intro step_ok_same [OF ok]) (auto simp: set_ptr_c_def writes_def)
    then show ?thesis using plus by (simp add: move_def)
  next
    case minus
    with st have "s' = set_ptr_c (ptr_c s - 1) s" by (simp add: body_def case_minus_def)
    then have "step_ok str s ls rs s' 0"
      using minus by (intro step_ok_same [OF ok]) (auto simp: set_ptr_c_def writes_def)
    then show ?thesis using minus by (simp add: move_def)
  next
    case lt
    with st have "case_lt e s = Continue s'" by (simp add: body_def)
    then have "step_ok str s ls rs s' (- 1)" by (rule case_lt_tape [OF ok])
    then show ?thesis using lt by (simp add: move_def)
  next
    case gt
    with st have "case_gt e s = Continue s'" by (simp add: body_def)
    then have "step_ok str s ls rs s' 1" by (rule case_gt_tape [OF ok])
    then show ?thesis using gt by (simp add: move_def)
  next
    case dot
    with st have "s' = s \<or> s' = s\<lparr>stdout := stdout s @ [ptr_c s]\<rparr>"
      by (auto simp: body_def case_dot_def putchar_def split: if_splits)
    then have "step_ok str s ls rs s' 0" by (intro step_ok_same [OF ok]) auto
    then show ?thesis using dot by (simp add: move_def)
  next
    case comma
    with st have "s' = set_ptr_c 255 s \<or>
        (\<exists>x xs. stdin s = x # xs \<and> s' = set_ptr_c x (s\<lparr>stdin := xs\<rparr>))"
      by (auto simp: body_def case_comma_def getchar_def eof_byte split: list.splits)
    then have "step_ok str s ls rs s' 0"
      using comma by (intro step_ok_same [OF ok]) (auto simp: set_ptr_c_def writes_def)
    then show ?thesis using comma by (simp add: move_def)
  next
    case opn
    with st have "\<exists>k b. s' = s \<or> s' = s\<lparr>i := k, bal := b\<rparr>"
      by (auto simp: body_def case_open_def split: if_splits sum.splits)
    then have "step_ok str s ls rs s' 0" by (intro step_ok_same [OF ok]) auto
    then show ?thesis using opn by (simp add: move_def)
  next
    case cls
    with st have "\<exists>k b. s' = s \<or> s' = s\<lparr>i := k, bal := b\<rparr>"
      by (auto simp: body_def case_close_def split: if_splits sum.splits)
    then have "step_ok str s ls rs s' 0" by (intro step_ok_same [OF ok]) auto
    then show ?thesis using cls by (simp add: move_def)
  next
    case other
    with st have "s' = s" by (simp add: body_def)
    then have "step_ok str s ls rs s' 0" by (intro step_ok_same [OF ok]) auto
    then show ?thesis using other by (simp add: move_def)
  qed
qed

lemma iteration_tape:
  assumes ok: "tape_ok s ls rs" and st: "iteration v e str s = Continue s'"
  shows "step_ok str s ls rs s' (move str s)"
proof -
  from st obtain s1 where b: "body v e str s = Continue s1" and s': "s' = s1\<lparr>i := i s1 + 1\<rparr>"
    by (auto simp: iteration_def split: if_splits flow.splits)
  from body_tape [OF ok b] show ?thesis
    unfolding s' step_ok_def by (simp add: cells_def)
qed


lemma after_Suc_Some:
  "after v e str (Suc n) s = Some s' \<Longrightarrow>
   \<exists>s1. iteration v e str s = Continue s1 \<and> after v e str n s1 = Some s'"
  by (cases "iteration v e str s") simp_all

text \<open>
  C9. Over any number of rounds, starting from a well-formed tape: the tape stays a
  well-formed doubly linked list; its cells are all still there, in the same order
  and at the same addresses, and new cells appear only at the two ends, at fresh
  addresses (nothing is discarded, \<open>brk\<close> never decreases); and a cell that no round
  has written to while the pointer was on it holds the value it held before. The
  pointer moves along this list, one cell per \<^verbatim>\<open><\<close> or \<^verbatim>\<open>>\<close>, so that moves which
  cancel out bring it back to the same node; and the moves write to no old cell, so a
  cell that the pointer leaves and comes back to shows the value it had.
\<close>

theorem tape_persists:
  assumes "tape_ok s ls rs" "after v e str n s = Some s'"
  shows "\<exists>ls' rs' l1 r1.
           tape_ok s' ls' rs' \<and> cells s' ls' rs' = l1 @ cells s ls rs @ r1 \<and>
           (\<forall>a \<in> set (l1 @ r1). brk s \<le> a) \<and> brk s \<le> brk s' \<and>
           int (length ls') = int (length l1) + int (length ls) + displacement v e str n s \<and>
           (displacement v e str n s = 0 \<longrightarrow> ptr s' = ptr s) \<and>
           (\<forall>a \<in> set (cells s ls rs).
              (\<forall>k < n. \<forall>t. after v e str k s = Some t \<and> ptr t = a \<longrightarrow> \<not> writes str t) \<longrightarrow>
              c (heap s' a) = c (heap s a))"
  using assms
proof (induction n arbitrary: s ls rs)
  case 0
  then have "s' = s" by simp
  with "0.prems"(1) show ?case
    by (intro exI [of _ ls] exI [of _ rs] exI [of _ "[]"]) simp
next
  case (Suc n)
  from after_Suc_Some [OF Suc.prems(2)] obtain s1
    where it: "iteration v e str s = Continue s1" and rest: "after v e str n s1 = Some s'"
    by blast
  from iteration_tape [OF Suc.prems(1) it] obtain ls1 rs1 la ra
    where ok1: "tape_ok s1 ls1 rs1" and c1: "cells s1 ls1 rs1 = la @ cells s ls rs @ ra"
      and f1: "\<forall>a \<in> set (la @ ra). brk s \<le> a" and b1: "brk s \<le> brk s1"
      and p1: "int (length ls1) = int (length la) + int (length ls) + move str s"
      and v1: "\<forall>a < brk s. (a = ptr s \<and> writes str s) \<or> c (heap s1 a) = c (heap s a)"
    unfolding step_ok_def by blast
  from Suc.IH [OF ok1 rest] obtain ls' rs' lb rb
    where ok': "tape_ok s' ls' rs'" and c': "cells s' ls' rs' = lb @ cells s1 ls1 rs1 @ rb"
      and f': "\<forall>a \<in> set (lb @ rb). brk s1 \<le> a" and b': "brk s1 \<le> brk s'"
      and p': "int (length ls') = int (length lb) + int (length ls1) + displacement v e str n s1"
      and v': "\<forall>a \<in> set (cells s1 ls1 rs1).
              (\<forall>k < n. \<forall>t. after v e str k s1 = Some t \<and> ptr t = a \<longrightarrow> \<not> writes str t) \<longrightarrow>
              c (heap s' a) = c (heap s1 a)"
    by blast
  have cc: "cells s' ls' rs' = (lb @ la) @ cells s ls rs @ (ra @ rb)"
    using c' c1 by simp
  have ff: "\<forall>a \<in> set ((lb @ la) @ (ra @ rb)). brk s \<le> a"
  proof
    fix a assume "a \<in> set ((lb @ la) @ (ra @ rb))"
    then have "a \<in> set (la @ ra) \<or> a \<in> set (lb @ rb)" by auto
    then show "brk s \<le> a"
    proof
      assume "a \<in> set (la @ ra)"
      with f1 show ?thesis by blast
    next
      assume "a \<in> set (lb @ rb)"
      with f' have "brk s1 \<le> a" by blast
      with b1 show ?thesis by simp
    qed
  qed
  have dd: "displacement v e str (Suc n) s = move str s + displacement v e str n s1"
    using it by simp
  have pp: "int (length ls') = int (length (lb @ la)) + int (length ls) +
              displacement v e str (Suc n) s"
    using p1 p' dd by simp
  have same: "displacement v e str (Suc n) s = 0 \<longrightarrow> ptr s' = ptr s"
  proof
    assume "displacement v e str (Suc n) s = 0"
    with pp have len: "length ls' = length (lb @ la) + length ls" by simp
    have "cells s' ls' rs' ! length ls' = ptr s'"
      by (simp add: cells_def nth_append)
    moreover have "((lb @ la) @ cells s ls rs @ (ra @ rb)) ! (length (lb @ la) + length ls) = ptr s"
      by (simp add: cells_def nth_append del: append_assoc)
    ultimately show "ptr s' = ptr s" using cc len by simp
  qed
  have vv: "\<forall>a \<in> set (cells s ls rs).
              (\<forall>k < Suc n. \<forall>t. after v e str k s = Some t \<and> ptr t = a \<longrightarrow> \<not> writes str t) \<longrightarrow>
              c (heap s' a) = c (heap s a)"
  proof (intro ballI impI)
    fix a
    assume a: "a \<in> set (cells s ls rs)"
      and nw: "\<forall>k < Suc n. \<forall>t. after v e str k s = Some t \<and> ptr t = a \<longrightarrow> \<not> writes str t"
    from a Suc.prems(1) have lt: "a < brk s" by (auto simp: tape_ok_def cells_def)
    from nw have "ptr s = a \<longrightarrow> \<not> writes str s" by auto
    with v1 lt have e1: "c (heap s1 a) = c (heap s a)" by auto
    have "\<forall>k < n. \<forall>t. after v e str k s1 = Some t \<and> ptr t = a \<longrightarrow> \<not> writes str t"
    proof (intro allI impI)
      fix k t assume k: "k < n" and t: "after v e str k s1 = Some t \<and> ptr t = a"
      then have "after v e str (Suc k) s = Some t" using it by simp
      with nw k t show "\<not> writes str t" by (metis Suc_less_eq)
    qed
    moreover have "a \<in> set (cells s1 ls1 rs1)" using a c1 by simp
    ultimately have "c (heap s' a) = c (heap s1 a)" using v' by blast
    with e1 show "c (heap s' a) = c (heap s a)" by simp
  qed
  have bb: "brk s \<le> brk s'" using b1 b' by simp
  show ?case
    by (intro exI [of _ ls'] exI [of _ rs'] exI [of _ "lb @ la"] exI [of _ "ra @ rb"] conjI)
       (fact ok' cc ff bb pp same vv)+
qed

lemma tape_ok_fresh: "tape_ok (fresh inp) [] []"
  by (simp add: tape_ok_def fresh_def)

theorem tape_persists_witness:
  "tape_ok (set_ptr_c 7 (fresh [])) [] [] \<and>
   (\<exists>s'. after Bf always ''<->'' 3 (set_ptr_c 7 (fresh [])) = Some s' \<and> ptr_c s' = 7 \<and>
      displacement Bf always ''<->'' 3 (set_ptr_c 7 (fresh [])) = 0 \<and>
      (\<exists>ls' rs' l1 r1.
           tape_ok s' ls' rs' \<and>
           cells s' ls' rs' = l1 @ cells (set_ptr_c 7 (fresh [])) [] [] @ r1 \<and>
           (\<forall>a \<in> set (l1 @ r1). brk (set_ptr_c 7 (fresh [])) \<le> a) \<and>
           brk (set_ptr_c 7 (fresh [])) \<le> brk s' \<and>
           int (length ls') = int (length l1) + int (length ([] :: addr list)) +
             displacement Bf always ''<->'' 3 (set_ptr_c 7 (fresh [])) \<and>
           (displacement Bf always ''<->'' 3 (set_ptr_c 7 (fresh [])) = 0 \<longrightarrow>
              ptr s' = ptr (set_ptr_c 7 (fresh []))) \<and>
           (\<forall>a \<in> set (cells (set_ptr_c 7 (fresh [])) [] []).
              (\<forall>k < 3. \<forall>t. after Bf always ''<->'' k (set_ptr_c 7 (fresh [])) = Some t \<and> ptr t = a
                  \<longrightarrow> \<not> writes ''<->'' t) \<longrightarrow>
              c (heap s' a) = c (heap (set_ptr_c 7 (fresh [])) a))))"
proof -
  have ok: "tape_ok (set_ptr_c 7 (fresh [])) [] []"
    by (simp add: tape_ok_set_ptr_c tape_ok_fresh)
  have "\<exists>s'. after Bf always ''<->'' 3 (set_ptr_c 7 (fresh [])) = Some s' \<and> ptr_c s' = 7"
    by (simp add: run_defs after_numeral case_lt_def case_gt_def malloc_def)
  then obtain s' where s': "after Bf always ''<->'' 3 (set_ptr_c 7 (fresh [])) = Some s'"
    "ptr_c s' = 7"
    by blast
  have d: "displacement Bf always ''<->'' 3 (set_ptr_c 7 (fresh [])) = 0"
    by (simp add: run_defs displacement_numeral move_def case_lt_def case_gt_def malloc_def)
  from tape_persists [OF ok s'(1)] s' ok d show ?thesis by blast
qed

text \<open>
  Moving left and then right comes back to the same node, with the same value, also
  when the move to the left allocates the node it moves to.
\<close>

lemma left_then_right:
  assumes ok: "tape_ok s ls rs" and al: "alloc_ok e (brk s)"
    and pc: "i s + 1 < length str" "str ! i s = CHR ''<''" "str ! (i s + 1) = CHR ''>''"
  shows "\<exists>s'. after v e str 2 s = Some s' \<and> ptr s' = ptr s \<and> ptr_c s' = ptr_c s"
proof (cases "prev (heap s (ptr s))")
  case (Some q)
  with ok have nx: "next (heap s q) = Some (ptr s)"
    by (cases ls) (auto simp: tape_ok_def)
  have r1: "iteration v e str s = Continue (s\<lparr>ptr := q, i := i s + 1\<rparr>)"
    using pc Some by (simp add: iteration_def body_def case_lt_def)
  have r2: "iteration v e str (s\<lparr>ptr := q, i := i s + 1\<rparr>) =
              Continue (s\<lparr>ptr := ptr s, i := i s + 2\<rparr>)"
    using pc nx by (simp add: iteration_def body_def case_gt_def)
  have "after v e str (Suc (Suc 0)) s = Some (s\<lparr>ptr := ptr s, i := i s + 2\<rparr>)"
    by (simp only: after.simps r1 r2 flow.case)
  then show ?thesis by (simp add: numeral_2_eq_2 ptr_c_def)
next
  case None
  let ?p = "ptr s" and ?n = "brk s" and ?h = "heap s"
  let ?h' = "(?h(?p := (?h ?p)\<lparr>prev := Some ?n\<rparr>))(?n := \<lparr>c = 0, prev = None, next = Some ?p\<rparr>)"
  let ?s1 = "s\<lparr>brk := ?n + 1, heap := ?h', ptr := ?n, i := i s + 1\<rparr>"
  from ok have lt: "?p < ?n" by (simp add: tape_ok_def)
  have r1: "iteration v e str s = Continue ?s1"
    using pc None al by (simp add: iteration_def body_def case_lt_def malloc_def Let_def)
  have r2: "iteration v e str ?s1 = Continue (?s1\<lparr>ptr := ?p, i := i s + 2\<rparr>)"
    using pc by (simp add: iteration_def body_def case_gt_def)
  have "after v e str (Suc (Suc 0)) s = Some (?s1\<lparr>ptr := ?p, i := i s + 2\<rparr>)"
    by (simp only: after.simps r1 r2 flow.case)
  then show ?thesis using lt by (simp add: numeral_2_eq_2 ptr_c_def)
qed

end
